theory Spec2Isabelle
  imports Main "HOL-Library.AList" "HOL-Library.Word"
begin

section \<open>Values of the runtime\<close>

text \<open>
  A string of the runtime is a sequence of 16-bit code units. \<open>js\<close> writes a string of
  ASCII characters as such a sequence.
\<close>

type_synonym jsstring = "16 word list"

definition js :: "string \<Rightarrow> jsstring" where
  "js s = map (\<lambda>c. of_nat (of_char c)) s"

text \<open>
  The values that the store serialises are JSON values. The list of an object is kept in
  the runtime's property enumeration order. Numbers are restricted to integers; the only
  thing the store asks of a number is whether it is zero.
\<close>

datatype json =
    JNull
  | JBool bool
  | JNum int
  | JStr jsstring
  | JArr "json list"
  | JObj "(jsstring \<times> json) list"

text \<open>Truthiness, as tested by \<^verbatim>\<open>!x\<close>, \<^verbatim>\<open>x || y\<close> and \<^verbatim>\<open>x ? a : b\<close>.\<close>

fun truthy :: "json \<Rightarrow> bool" where
  "truthy JNull = False"
| "truthy (JBool b) = b"
| "truthy (JNum n) = (n \<noteq> 0)"
| "truthy (JStr s) = (s \<noteq> [])"
| "truthy (JArr xs) = True"
| "truthy (JObj kvs) = True"

text \<open>
  A thrown value is either an Error object (with its message) or any other value; an
  Error object is always truthy.
\<close>

datatype thrown = Error string | Thrown json

fun truthy_thrown :: "thrown \<Rightarrow> bool" where
  "truthy_thrown (Error m) = True"
| "truthy_thrown (Thrown v) = truthy v"

section \<open>Strings\<close>

text \<open>
  \<^verbatim>\<open>s.startsWith(p)\<close> and \<^verbatim>\<open>s.split(sep)\<close> for a separator of one code unit; the
  separator of the keys, \<^verbatim>\<open>/\<close>, is the code unit \<open>0x2F\<close>.
\<close>

definition startsWith :: "jsstring \<Rightarrow> jsstring \<Rightarrow> bool" where
  "startsWith s p = (take (length p) s = p)"

fun split_str :: "jsstring \<Rightarrow> 16 word \<Rightarrow> jsstring list" where
  "split_str [] sep = [[]]"
| "split_str (c # s) sep =
     (if c = sep then [] # split_str s sep
      else (case split_str s sep of [] \<Rightarrow> [[c]] | p # ps \<Rightarrow> (c # p) # ps))"

text \<open>
  \<^verbatim>\<open>encodeURIComponent\<close> keeps the letters, the digits and \<^verbatim>\<open>- _ . ! ~ * ' ( )\<close>. Of
  anything else it takes the code point: the code unit itself, or the code point of a
  leading surrogate (\<open>0xD800\<close> to \<open>0xDBFF\<close>) and the trailing surrogate (\<open>0xDC00\<close> to
  \<open>0xDFFF\<close>) that follows it. It writes the code point as the octets of its UTF-8
  encoding, each as \<^verbatim>\<open>%\<close> (\<open>0x25\<close>) and two upper-case hexadecimal digits. On a
  surrogate that is not part of such a pair it throws a URIError.
\<close>

definition unreserved :: "16 word \<Rightarrow> bool" where
  "unreserved u =
     (u \<in> set (js ''ABCDEFGHIJKLMNOPQRSTUVWXYZabcdefghijklmnopqrstuvwxyz0123456789-_.!~*()'')
      \<or> u = 0x27)"

text \<open>The two digits of an octet; \<open>hex_digit\<close> is only applied to numbers below 16.\<close>

definition hex_digit :: "nat \<Rightarrow> 16 word" where
  "hex_digit n = js ''0123456789ABCDEF'' ! n"

definition hex_val :: "16 word \<Rightarrow> nat option" where
  "hex_val u =
     (let n = unat u in
      if 48 \<le> n \<and> n \<le> 57 then Some (n - 48)
      else if 65 \<le> n \<and> n \<le> 70 then Some (n - 55)
      else if 97 \<le> n \<and> n \<le> 102 then Some (n - 87)
      else None)"

definition percent :: "nat \<Rightarrow> jsstring" where
  "percent b = [0x25, hex_digit (b div 16), hex_digit (b mod 16)]"

text \<open>The octets of the UTF-8 encoding of a code point.\<close>

definition utf8 :: "nat \<Rightarrow> nat list" where
  "utf8 V =
     (if V < 0x80 then [V]
      else if V < 0x800 then [0xC0 + V div 64, 0x80 + V mod 64]
      else if V < 0x10000 then [0xE0 + V div 4096, 0x80 + V div 64 mod 64, 0x80 + V mod 64]
      else [0xF0 + V div 262144, 0x80 + V div 4096 mod 64, 0x80 + V div 64 mod 64,
            0x80 + V mod 64])"

definition escape :: "nat \<Rightarrow> jsstring" where
  "escape V = concat (map percent (utf8 V))"

definition URIError :: thrown where
  "URIError = Error ''URIError''"

fun prepend :: "jsstring \<Rightarrow> thrown + jsstring \<Rightarrow> thrown + jsstring" where
  "prepend p (Inl e) = Inl e"
| "prepend p (Inr s) = Inr (p @ s)"

definition code_point :: "16 word \<Rightarrow> 16 word \<Rightarrow> nat" where
  "code_point u v = (unat u - 0xD800) * 0x400 + (unat v - 0xDC00) + 0x10000"

fun encodeURIComponent :: "jsstring \<Rightarrow> thrown + jsstring" where
  "encodeURIComponent [] = Inr []"
| "encodeURIComponent (u # s) =
     (if unreserved u then prepend [u] (encodeURIComponent s)
      else if unat u < 0xD800 \<or> 0xDFFF < unat u
      then prepend (escape (unat u)) (encodeURIComponent s)
      else if 0xDC00 \<le> unat u then Inl URIError
      else
        (case s of
           [] \<Rightarrow> Inl URIError
         | v # s' \<Rightarrow>
             if 0xDC00 \<le> unat v \<and> unat v \<le> 0xDFFF
             then prepend (escape (code_point u v)) (encodeURIComponent s')
             else Inl URIError))"

text \<open>
  \<^verbatim>\<open>decodeURIComponent\<close> copies every code unit but \<^verbatim>\<open>%\<close>, and reads \<^verbatim>\<open>%\<close> with two
  hexadecimal digits (of either case) as an octet. An octet below \<open>0x80\<close> is a code
  unit. An octet from \<open>0xC0\<close> to \<open>0xF7\<close> leads a sequence of two, three or four octets,
  the others written in the same way and each from \<open>0x80\<close> to \<open>0xBF\<close>; the sequence is
  decoded as UTF-8 and its code point is written as one code unit or as a pair of
  surrogates. A URIError is thrown on a \<^verbatim>\<open>%\<close> without two digits, on any other leading
  octet, on a missing or wrong continuation, and on a sequence that is not the UTF-8
  encoding of a code point (an overlong form, a surrogate, a value above \<open>0x10FFFF\<close>).
\<close>

definition hex_pair :: "jsstring \<Rightarrow> nat option" where
  "hex_pair s =
     (case s of
        h1 # h2 # r \<Rightarrow>
          (case (hex_val h1, hex_val h2) of
             (Some a, Some b) \<Rightarrow> Some (16 * a + b)
           | _ \<Rightarrow> None)
      | _ \<Rightarrow> None)"

fun continuation_octets :: "nat \<Rightarrow> jsstring \<Rightarrow> nat list option" where
  "continuation_octets 0 s = Some []"
| "continuation_octets (Suc k) s =
     (case s of
        [] \<Rightarrow> None
      | p # r \<Rightarrow>
          if p \<noteq> 0x25 then None
          else (case hex_pair r of
                  None \<Rightarrow> None
                | Some C \<Rightarrow>
                    if 0x80 \<le> C \<and> C < 0xC0
                    then (case continuation_octets k (drop 2 r) of
                            None \<Rightarrow> None
                          | Some cs \<Rightarrow> Some (C # cs))
                    else None))"

definition utf16 :: "nat \<Rightarrow> jsstring" where
  "utf16 V =
     (if V < 0x10000 then [of_nat V]
      else [of_nat (0xD800 + (V - 0x10000) div 0x400),
            of_nat (0xDC00 + (V - 0x10000) mod 0x400)])"

definition valid_code_point :: "nat \<Rightarrow> nat \<Rightarrow> bool" where
  "valid_code_point n V =
     (if n = 2 then 0x80 \<le> V
      else if n = 3 then 0x800 \<le> V \<and> \<not> (0xD800 \<le> V \<and> V \<le> 0xDFFF)
      else 0x10000 \<le> V \<and> V \<le> 0x10FFFF)"

function decodeURIComponent :: "jsstring \<Rightarrow> thrown + jsstring" where
  "decodeURIComponent [] = Inr []"
| "decodeURIComponent (c # s) =
     (if c \<noteq> 0x25 then prepend [c] (decodeURIComponent s)
      else
        (case hex_pair s of
           None \<Rightarrow> Inl URIError
         | Some B \<Rightarrow>
             if B < 0x80 then prepend [of_nat B] (decodeURIComponent (drop 2 s))
             else if B < 0xC0 \<or> 0xF8 \<le> B then Inl URIError
             else
               (let n = (if B < 0xE0 then 2 else if B < 0xF0 then 3 else 4 :: nat);
                    lead = (if B < 0xE0 then B - 0xC0 else if B < 0xF0 then B - 0xE0
                            else B - 0xF0)
                in case continuation_octets (n - 1) (drop 2 s) of
                     None \<Rightarrow> Inl URIError
                   | Some cs \<Rightarrow>
                       (let V = foldl (\<lambda>v C. v * 64 + (C - 0x80)) lead cs in
                        if valid_code_point n V
                        then prepend (utf16 V)
                               (decodeURIComponent (drop (2 + 3 * (n - 1)) s))
                        else Inl URIError))))"
  by pat_completeness auto
termination
  by (relation "measure length") auto

text \<open>
  \<^verbatim>\<open>decodeURIComponent(parts[i])\<close>: an index beyond the parts reads \<^verbatim>\<open>undefined\<close>, which
  \<^verbatim>\<open>decodeURIComponent\<close> turns into the string \<^verbatim>\<open>"undefined"\<close>.
\<close>

definition decodePart :: "jsstring list \<Rightarrow> nat \<Rightarrow> thrown + jsstring" where
  "decodePart parts i =
     (if i < length parts then decodeURIComponent (parts ! i) else Inr (js ''undefined''))"

section \<open>Storage keys\<close>

text \<open>
  A key function throws what \<^verbatim>\<open>encodeURIComponent\<close> throws; the sender key (or the
  device key) is encoded before the session id.
\<close>

definition E2E_PREFIX :: jsstring where
  "E2E_PREFIX = js ''crypto.''"

definition END_TO_END_SESSION_PREFIX :: jsstring where
  "END_TO_END_SESSION_PREFIX = E2E_PREFIX @ js ''sessions/''"

definition INBOUND_SESSION_PREFIX :: jsstring where
  "INBOUND_SESSION_PREFIX = E2E_PREFIX @ js ''inboundgroupsessions/''"

definition INBOUND_SESSION_WITHHELD_PREFIX :: jsstring where
  "INBOUND_SESSION_WITHHELD_PREFIX = E2E_PREFIX @ js ''inboundgroupsessions.withheld/''"

definition KEY_SESSIONS_NEEDING_BACKUP :: jsstring where
  "KEY_SESSIONS_NEEDING_BACKUP = E2E_PREFIX @ js ''sessionsneedingbackup''"

definition prefixEndToEndSession :: "jsstring \<Rightarrow> thrown + jsstring" where
  "prefixEndToEndSession deviceKey =
     (case encodeURIComponent deviceKey of
        Inl e \<Rightarrow> Inl e
      | Inr d \<Rightarrow> Inr (END_TO_END_SESSION_PREFIX @ d @ js ''/''))"

definition keyEndToEndSession :: "jsstring \<Rightarrow> jsstring \<Rightarrow> thrown + jsstring" where
  "keyEndToEndSession deviceKey sessionKey =
     (case prefixEndToEndSession deviceKey of
        Inl e \<Rightarrow> Inl e
      | Inr p \<Rightarrow>
          (case encodeURIComponent sessionKey of
             Inl e \<Rightarrow> Inl e
           | Inr c \<Rightarrow> Inr (p @ c)))"

definition keyEndToEndInboundGroupSession :: "jsstring \<Rightarrow> jsstring \<Rightarrow> thrown + jsstring" where
  "keyEndToEndInboundGroupSession senderKey sessionId =
     (case encodeURIComponent senderKey of
        Inl e \<Rightarrow> Inl e
      | Inr a \<Rightarrow>
          (case encodeURIComponent sessionId of
             Inl e \<Rightarrow> Inl e
           | Inr c \<Rightarrow> Inr (INBOUND_SESSION_PREFIX @ a @ js ''/'' @ c)))"

definition keyEndToEndInboundGroupSessionWithheld :: "jsstring \<Rightarrow> jsstring \<Rightarrow> thrown + jsstring" where
  "keyEndToEndInboundGroupSessionWithheld senderKey sessionId =
     (case encodeURIComponent senderKey of
        Inl e \<Rightarrow> Inl e
      | Inr a \<Rightarrow>
          (case encodeURIComponent sessionId of
             Inl e \<Rightarrow> Inl e
           | Inr c \<Rightarrow> Inr (INBOUND_SESSION_WITHHELD_PREFIX @ a @ js ''/'' @ c)))"

section \<open>Transaction\<close>

text \<open>
  \<^verbatim>\<open>class Transaction\<close>. The fields \<open>resolve\<close> and \<open>reject\<close> hold the two
  functions of the promise or null; the model keeps whether each is still held
  (\<open>True\<close>) or has been set to null (\<open>False\<close>), and the state of the promise itself.
\<close>

datatype promise_state = Pending | Resolved | Rejected thrown

record Transaction =
  numOps :: int
  error :: "thrown option"
  resolve :: bool
  reject :: bool
  promise :: promise_state

definition new_Transaction :: Transaction where
  "new_Transaction =
     \<lparr>numOps = 0, error = None, resolve = True, reject = True, promise = Pending\<rparr>"

text \<open>
  \<^verbatim>\<open>this.reject?.(e)\<close> and \<^verbatim>\<open>this.resolve?.()\<close>: nothing happens when the function
  is null, and a promise that is already settled ignores the call.
\<close>

definition call_reject :: "Transaction \<Rightarrow> thrown \<Rightarrow> Transaction" where
  "call_reject t e =
     (if reject t \<and> promise t = Pending then t\<lparr>promise := Rejected e\<rparr> else t)"

definition call_resolve :: "Transaction \<Rightarrow> Transaction" where
  "call_resolve t =
     (if resolve t \<and> promise t = Pending then t\<lparr>promise := Resolved\<rparr> else t)"

definition onOperationStarted :: "Transaction \<Rightarrow> thrown + Transaction" where
  "onOperationStarted t =
     (if \<not> resolve t
      then Inl (Error ''Tried to start a new operation on a completed transaction'')
      else Inr (t\<lparr>numOps := numOps t + 1\<rparr>))"

definition onOperationEnded :: "Transaction \<Rightarrow> Transaction" where
  "onOperationEnded t =
     (let t1 = t\<lparr>numOps := numOps t - 1\<rparr> in
      if numOps t1 = 0 then
        (let t2 = (case error t1 of
                     None \<Rightarrow> call_resolve t1
                   | Some e \<Rightarrow> if truthy_thrown e then call_reject t1 e else call_resolve t1)
         in t2\<lparr>resolve := False, reject := False\<rparr>)
      else t1)"

text \<open>
  \<^verbatim>\<open>execute\<close> is asynchronous: between its start and the end of the operation, other
  calls of \<^verbatim>\<open>execute\<close> may start and other operations may end. Its two halves are the
  events of a transaction. \<open>Started\<close> is the call up to the \<^verbatim>\<open>await\<close>: when
  \<^verbatim>\<open>onOperationStarted\<close> throws, the call is over and the transaction is as it was.
  \<open>Ended r\<close> is the rest, once the operation has finished with \<open>r\<close> (\<open>None\<close> for
  success, \<open>Some e\<close> when it threw \<open>e\<close>): the \<^verbatim>\<open>catch\<close> and the \<^verbatim>\<open>finally\<close>.
\<close>

datatype event = Started | Ended "thrown option"

fun step :: "Transaction \<Rightarrow> event \<Rightarrow> Transaction" where
  "step t Started = (case onOperationStarted t of Inl e \<Rightarrow> t | Inr t' \<Rightarrow> t')"
| "step t (Ended r) =
     onOperationEnded (case r of None \<Rightarrow> t | Some e \<Rightarrow> t\<lparr>error := Some e\<rparr>)"

fun run :: "Transaction \<Rightarrow> event list \<Rightarrow> Transaction" where
  "run t [] = t"
| "run t (ev # evs) = run (step t ev) evs"

text \<open>
  A sequence of events can happen when every \<open>Ended\<close> belongs to an operation that is
  in flight.
\<close>

fun feasible :: "Transaction \<Rightarrow> event list \<Rightarrow> bool" where
  "feasible t [] = True"
| "feasible t (Started # evs) = feasible (step t Started) evs"
| "feasible t (Ended r # evs) = (0 < numOps t \<and> feasible (step t (Ended r)) evs)"

text \<open>The errors of the operations that failed, in the order in which they failed.\<close>

fun failures :: "event list \<Rightarrow> thrown list" where
  "failures [] = []"
| "failures (Started # evs) = failures evs"
| "failures (Ended None # evs) = failures evs"
| "failures (Ended (Some e) # evs) = e # failures evs"

section \<open>The backend\<close>

text \<open>
  The backend maps key strings to value strings. A stored string is kept as what
  \<^verbatim>\<open>JSON.parse\<close> makes of it: the serialisation of a JSON value, or a string that is
  no JSON text (such a string can only come from another writer of the same backend).
\<close>

datatype item = Text json | NotJson jsstring

definition JSON_stringify :: "json \<Rightarrow> item" where
  "JSON_stringify v = Text v"

fun JSON_parse :: "item \<Rightarrow> thrown + json" where
  "JSON_parse (Text v) = Inr v"
| "JSON_parse (NotJson s) = Inl (Error ''SyntaxError'')"

text \<open>
  \<^verbatim>\<open>MockAsyncStore\<close>: a \<^verbatim>\<open>Map\<close>, which keeps its keys in insertion order; setting a
  key that is present keeps its place.
\<close>

type_synonym backend = "(jsstring \<times> item) list"

definition getAllKeys :: "backend \<Rightarrow> jsstring list" where
  "getAllKeys b = map fst b"

definition getItem :: "backend \<Rightarrow> jsstring \<Rightarrow> item option" where
  "getItem b key = map_of b key"

definition setItem :: "backend \<Rightarrow> jsstring \<Rightarrow> item \<Rightarrow> backend" where
  "setItem b key val = AList.update key val b"

definition removeItem :: "backend \<Rightarrow> jsstring \<Rightarrow> backend" where
  "removeItem b key = AList.delete key b"

text \<open>\<^verbatim>\<open>_getJsonItem\<close> and \<^verbatim>\<open>_setJsonItem\<close>.\<close>

definition getJsonItem :: "backend \<Rightarrow> jsstring \<Rightarrow> thrown + json" where
  "getJsonItem b key =
     (case getItem b key of None \<Rightarrow> Inr JNull | Some item \<Rightarrow> JSON_parse item)"

definition setJsonItem :: "backend \<Rightarrow> jsstring \<Rightarrow> json \<Rightarrow> backend" where
  "setJsonItem b key val = setItem b key (JSON_stringify val)"

section \<open>Operations inside a transaction\<close>

text \<open>
  The state that an operation of the store works on: the transaction it was given, the
  backend, and the arguments with which the caller's callback has been invoked so far.
  An operation returns \<open>None\<close> when it finishes and \<open>Some e\<close> when it throws \<open>e\<close>.
  Here an operation runs to its end before anything else happens.
\<close>

record 'c state =
  txn :: Transaction
  storage :: backend
  delivered :: "'c list"

definition execute ::
  "('c state \<Rightarrow> thrown option \<times> 'c state) \<Rightarrow> 'c state \<Rightarrow> thrown option \<times> 'c state" where
  "execute func s =
     (case onOperationStarted (txn s) of
        Inl e \<Rightarrow> (Some e, s)
      | Inr t \<Rightarrow>
          (case func (s\<lparr>txn := t\<rparr>) of
             (r, s') \<Rightarrow>
               (None,
                s'\<lparr>txn := onOperationEnded
                   (case r of None \<Rightarrow> txn s' | Some e \<Rightarrow> (txn s')\<lparr>error := Some e\<rparr>)\<rparr>)))"

text \<open>
  \<^verbatim>\<open>doTxn\<close>: the promise it returns settles as the promise of the transaction does;
  \<open>Pending\<close> is a promise that never settles. The value with which it resolves, the
  result of the function, plays no part here and is not kept.
\<close>

definition doTxn :: "('c state \<Rightarrow> 'c state) \<Rightarrow> backend \<Rightarrow> promise_state \<times> backend \<times> 'c list" where
  "doTxn func b =
     (let s = func \<lparr>txn = new_Transaction, storage = b, delivered = []\<rparr>
      in (promise (txn s), storage s, delivered s))"

section \<open>The crypto store\<close>



record ISession =
  senderKey :: jsstring
  sessionId :: jsstring
  sessionData :: json

record SessionExtended = ISession +
  needsBackup :: bool

text \<open>The caller's callback (\<^verbatim>\<open>func\<close> in the source) records its argument and does nothing else.\<close>

definition callback :: "'c \<Rightarrow> 'c state \<Rightarrow> 'c state" where
  "callback c s = s\<lparr>delivered := delivered s @ [c]\<rparr>"

text \<open>
  \<^verbatim>\<open>obj[k] = v\<close> on a plain object: a new property goes last, a present one keeps its
  place; assigning to \<^verbatim>\<open>__proto__\<close> creates no property. (That index-like names are
  enumerated first is not modelled: the properties are read by name.)
\<close>

definition set_property ::
  "(jsstring \<times> json) list \<Rightarrow> jsstring \<Rightarrow> json \<Rightarrow> (jsstring \<times> json) list" where
  "set_property obj k v = (if k = js ''__proto__'' then obj else AList.update k v obj)"

subsection \<open>Sessions\<close>






subsection \<open>Inbound group sessions\<close>






subsection \<open>Deleting all data\<close>

definition deleteAllData :: "backend \<Rightarrow> backend" where
  "deleteAllData b =
     (let keys = filter (\<lambda>k. startsWith k E2E_PREFIX) (getAllKeys b)
      in fold (\<lambda>key b. removeItem b key) keys b)"

subsection \<open>Batches\<close>

text \<open>
  The code after each loop is the case of the empty list: \<open>None\<close> is \<^verbatim>\<open>null\<close>.
  A session that is falsy is logged and skipped.
\<close>

fun getEndToEndSessionsBatch_loop ::
  "nat \<Rightarrow> backend \<Rightarrow> jsstring list \<Rightarrow> json list \<Rightarrow> thrown + json list option" where
  "getEndToEndSessionsBatch_loop SESSION_BATCH_SIZE b [] result =
     (if length result = 0 then Inr None else Inr (Some result))"
| "getEndToEndSessionsBatch_loop SESSION_BATCH_SIZE b (k # ks) result =
     (case getJsonItem b k of
        Inl e \<Rightarrow> Inl e
      | Inr session \<Rightarrow>
          if \<not> truthy session
          then getEndToEndSessionsBatch_loop SESSION_BATCH_SIZE b ks result
          else (let result' = result @ [session] in
                if length result' \<ge> SESSION_BATCH_SIZE then Inr (Some result')
                else getEndToEndSessionsBatch_loop SESSION_BATCH_SIZE b ks result'))"

definition getEndToEndSessionsBatch :: "nat \<Rightarrow> backend \<Rightarrow> thrown + json list option" where
  "getEndToEndSessionsBatch SESSION_BATCH_SIZE b =
     (let keys = filter (\<lambda>k. startsWith k END_TO_END_SESSION_PREFIX) (getAllKeys b)
      in getEndToEndSessionsBatch_loop SESSION_BATCH_SIZE b keys [])"

text \<open>
  \<^verbatim>\<open>k in this.getSessionsNeedingBackup(0)\<close>: the right operand is the promise that the
  asynchronous function returns, so the test is whether a promise has a property of the
  name \<open>k\<close>. These are the properties of a promise, its own and inherited. (The call
  itself only reads the backend; its result is dropped.)
\<close>

definition Promise_properties :: "jsstring list" where
  "Promise_properties =
     map js
       [''then'', ''catch'', ''finally'', ''constructor'', ''__proto__'', ''hasOwnProperty'',
        ''isPrototypeOf'', ''propertyIsEnumerable'', ''toLocaleString'', ''toString'',
        ''valueOf'', ''__defineGetter__'', ''__defineSetter__'', ''__lookupGetter__'',
        ''__lookupSetter__'']"

definition in_Promise :: "jsstring \<Rightarrow> bool" where
  "in_Promise k = (k \<in> set Promise_properties)"

fun getEndToEndInboundGroupSessionsBatch_loop ::
  "nat \<Rightarrow> backend \<Rightarrow> jsstring list \<Rightarrow> SessionExtended list
     \<Rightarrow> thrown + SessionExtended list option" where
  "getEndToEndInboundGroupSessionsBatch_loop SESSION_BATCH_SIZE b [] result =
     (if length result = 0 then Inr None else Inr (Some result))"
| "getEndToEndInboundGroupSessionsBatch_loop SESSION_BATCH_SIZE b (k # ks) result =
     (let keyParts = split_str k 0x2F in
      case decodePart keyParts 1 of
        Inl e \<Rightarrow> Inl e
      | Inr sender_key \<Rightarrow>
          (case decodePart keyParts 2 of
             Inl e \<Rightarrow> Inl e
           | Inr session_id \<Rightarrow>
               (case getJsonItem b k of
                  Inl e \<Rightarrow> Inl e
                | Inr session_data \<Rightarrow>
                    (let result' = result @
                           [\<lparr>senderKey = sender_key, sessionId = session_id,
                             sessionData = session_data, needsBackup = in_Promise k\<rparr>]
                     in if length result' \<ge> SESSION_BATCH_SIZE then Inr (Some result')
                        else getEndToEndInboundGroupSessionsBatch_loop SESSION_BATCH_SIZE b ks
                               result'))))"

definition getEndToEndInboundGroupSessionsBatch ::
  "nat \<Rightarrow> backend \<Rightarrow> thrown + SessionExtended list option" where
  "getEndToEndInboundGroupSessionsBatch SESSION_BATCH_SIZE b =
     (let keys = filter (\<lambda>k. startsWith k INBOUND_SESSION_PREFIX) (getAllKeys b)
      in getEndToEndInboundGroupSessionsBatch_loop SESSION_BATCH_SIZE b keys [])"

subsection \<open>Sessions needing backup\<close>

text \<open>
  \<^verbatim>\<open>Object.keys\<close>: the names of the properties of an object, the indices of an array or
  of a string, nothing for a number or a boolean, and a TypeError for \<^verbatim>\<open>null\<close>.
\<close>

fun show_nat :: "nat \<Rightarrow> jsstring" where
  "show_nat n =
     (if n < 10 then [of_nat (48 + n)] else show_nat (n div 10) @ [of_nat (48 + n mod 10)])"

declare show_nat.simps [simp del]

fun Object_keys :: "json \<Rightarrow> thrown + jsstring list" where
  "Object_keys (JObj kvs) = Inr (map fst kvs)"
| "Object_keys (JArr xs) = Inr (map show_nat [0..<length xs])"
| "Object_keys (JStr s) = Inr (map show_nat [0..<length s])"
| "Object_keys (JNum n) = Inr []"
| "Object_keys (JBool b) = Inr []"
| "Object_keys JNull = Inl (Error ''TypeError'')"

text \<open>\<^verbatim>\<open>x || {}\<close>\<close>

definition or_empty_object :: "json \<Rightarrow> json" where
  "or_empty_object x = (if truthy x then x else JObj [])"

fun getSessionsNeedingBackup_loop ::
  "backend \<Rightarrow> int \<Rightarrow> jsstring list \<Rightarrow> ISession list \<Rightarrow> thrown + ISession list" where
  "getSessionsNeedingBackup_loop b limit [] sessions = Inr sessions"
| "getSessionsNeedingBackup_loop b limit (k # ks) sessions =
     (let keyParts = split_str k 0x2F in
      case decodePart keyParts 0 of
        Inl e \<Rightarrow> Inl e
      | Inr sender_key \<Rightarrow>
          (case decodePart keyParts 1 of
             Inl e \<Rightarrow> Inl e
           | Inr session_id \<Rightarrow>
               (case keyEndToEndInboundGroupSession sender_key session_id of
                  Inl e \<Rightarrow> Inl e
                | Inr k' \<Rightarrow>
                    (case getJsonItem b k' of
                       Inl e \<Rightarrow> Inl e
                     | Inr session_data \<Rightarrow>
                         if \<not> truthy session_data
                         then getSessionsNeedingBackup_loop b limit ks sessions
                         else (let sessions' = sessions @
                                     [\<lparr>senderKey = sender_key, sessionId = session_id,
                                       sessionData = session_data\<rparr>]
                               in if limit \<noteq> 0 \<and> int (length sessions') \<ge> limit
                                  then Inr sessions'
                                  else getSessionsNeedingBackup_loop b limit ks sessions')))))"

definition getSessionsNeedingBackup :: "backend \<Rightarrow> int \<Rightarrow> thrown + ISession list" where
  "getSessionsNeedingBackup b limit =
     (case getJsonItem b KEY_SESSIONS_NEEDING_BACKUP of
        Inl e \<Rightarrow> Inl e
      | Inr x \<Rightarrow>
          (case Object_keys (or_empty_object x) of
             Inl e \<Rightarrow> Inl e
           | Inr keys \<Rightarrow> getSessionsNeedingBackup_loop b limit keys []))"

definition countSessionsNeedingBackup :: "backend \<Rightarrow> thrown + nat" where
  "countSessionsNeedingBackup b =
     (case getJsonItem b KEY_SESSIONS_NEEDING_BACKUP of
        Inl e \<Rightarrow> Inl e
      | Inr x \<Rightarrow>
          (case Object_keys (or_empty_object x) of
             Inl e \<Rightarrow> Inl e
           | Inr keys \<Rightarrow> Inr (length keys)))"

text \<open>
  \<^verbatim>\<open>markSessionsNeedingBackup\<close> sets the property
  \<^verbatim>\<open>encodeURIComponent(senderKey) + "/" + encodeURIComponent(sessionId)\<close> to \<^verbatim>\<open>true\<close>
  for each session; the name is computed before the assignment is made. The name holds a
  \<^verbatim>\<open>/\<close>, so on an array it is no index and is lost when the array is serialised; on a
  string, a number or a boolean the assignment throws a TypeError, the module being in
  strict mode.
\<close>

definition mark_name :: "jsstring \<Rightarrow> jsstring \<Rightarrow> thrown + jsstring" where
  "mark_name sender_key session_id =
     (case encodeURIComponent sender_key of
        Inl e \<Rightarrow> Inl e
      | Inr a \<Rightarrow>
          (case encodeURIComponent session_id of
             Inl e \<Rightarrow> Inl e
           | Inr c \<Rightarrow> Inr (a @ js ''/'' @ c)))"

fun markSessionsNeedingBackup_loop :: "json \<Rightarrow> ISession list \<Rightarrow> thrown + json" where
  "markSessionsNeedingBackup_loop x [] = Inr x"
| "markSessionsNeedingBackup_loop x (session # sessions) =
     (case mark_name (senderKey session) (sessionId session) of
        Inl e \<Rightarrow> Inl e
      | Inr k \<Rightarrow>
          (case x of
             JObj obj \<Rightarrow>
               markSessionsNeedingBackup_loop (JObj (set_property obj k (JBool True))) sessions
           | JArr xs \<Rightarrow> markSessionsNeedingBackup_loop (JArr xs) sessions
           | _ \<Rightarrow> Inl (Error ''TypeError'')))"

definition markSessionsNeedingBackup :: "backend \<Rightarrow> ISession list \<Rightarrow> thrown + backend" where
  "markSessionsNeedingBackup b sessions =
     (case getJsonItem b KEY_SESSIONS_NEEDING_BACKUP of
        Inl e \<Rightarrow> Inl e
      | Inr x \<Rightarrow>
          (case markSessionsNeedingBackup_loop (or_empty_object x) sessions of
             Inl e \<Rightarrow> Inl e
           | Inr sessionsNeedingBackup \<Rightarrow>
               Inr (setJsonItem b KEY_SESSIONS_NEEDING_BACKUP sessionsNeedingBackup)))"

section \<open>Vocabulary of the statements\<close>


text \<open>
  The entries of the backend whose key starts with a prefix, in the order of the backend,
  and the entry under which the store keeps an inbound group session or a session. There
  is no such entry for identifiers on which the key function throws.
\<close>

definition entries_under :: "jsstring \<Rightarrow> backend \<Rightarrow> backend" where
  "entries_under prefix b = filter (\<lambda>(k, v). startsWith k prefix) b"

definition inbound_entry :: "jsstring \<times> jsstring \<times> json \<Rightarrow> thrown + jsstring \<times> item" where
  "inbound_entry =
     (\<lambda>(sk, sid, v). case keyEndToEndInboundGroupSession sk sid of
                        Inl e \<Rightarrow> Inl e
                      | Inr k \<Rightarrow> Inr (k, JSON_stringify v))"

definition session_entry :: "jsstring \<times> jsstring \<times> json \<Rightarrow> thrown + jsstring \<times> item" where
  "session_entry =
     (\<lambda>(d, sid, v). case keyEndToEndSession d sid of
                       Inl e \<Rightarrow> Inl e
                     | Inr k \<Rightarrow> Inr (k, JSON_stringify v))"

text \<open>
  \<^verbatim>\<open>_getJsonItem\<close> applied to the result of a key function, and the item that the
  backend holds for an inbound group session.
\<close>

definition read_json :: "backend \<Rightarrow> thrown + jsstring \<Rightarrow> thrown + json" where
  "read_json b key = (case key of Inl e \<Rightarrow> Inl e | Inr k \<Rightarrow> getJsonItem b k)"

definition inbound_item :: "backend \<Rightarrow> jsstring \<Rightarrow> jsstring \<Rightarrow> item option" where
  "inbound_item b sk sid =
     (case keyEndToEndInboundGroupSession sk sid of Inl e \<Rightarrow> None | Inr k \<Rightarrow> getItem b k)"


definition SessionExtended_of :: "jsstring \<times> jsstring \<times> json \<Rightarrow> SessionExtended" where
  "SessionExtended_of =
     (\<lambda>(sk, sid, v). \<lparr>senderKey = sk, sessionId = sid, sessionData = v, needsBackup = False\<rparr>)"

text \<open>
  The sessions among the marked pairs of sender key and session id whose data is in the
  backend, each with its data, in the order of the marks.
\<close>

definition sessions_with_data :: "backend \<Rightarrow> (jsstring \<times> jsstring) list \<Rightarrow> ISession list" where
  "sessions_with_data b marked =
     concat (map (\<lambda>(sk, sid).
                    case inbound_item b sk sid of
                      Some (Text v) \<Rightarrow> [\<lparr>senderKey = sk, sessionId = sid, sessionData = v\<rparr>]
                    | _ \<Rightarrow> [])
                 marked)"

text \<open>
  What relates the fields of a transaction in every run: the two functions are held
  exactly as long as the promise is pending.
\<close>

definition held :: "Transaction \<Rightarrow> bool" where
  "held t = ((resolve t \<longleftrightarrow> promise t = Pending) \<and> reject t = resolve t)"

section \<open>Properties of the transaction\<close>

lemma error_onOperationEnded: "error (onOperationEnded t) = error t"
  by (simp add: onOperationEnded_def call_resolve_def call_reject_def Let_def split: option.splits)

lemma error_step_Started: "error (step t Started) = error t"
  by (simp add: onOperationStarted_def)

lemma error_step_Ended:
  "error (step t (Ended r)) = (case r of None \<Rightarrow> error t | Some e \<Rightarrow> Some e)"
  by (simp add: error_onOperationEnded split: option.splits)

lemma error_run:
  "error (run t evs) = (case failures evs of [] \<Rightarrow> error t | e # es \<Rightarrow> Some (last (e # es)))"
proof (induction evs arbitrary: t rule: failures.induct)
  case 1
  then show ?case by simp
next
  case (2 evs)
  then show ?case by (simp add: error_step_Started del: step.simps split: list.splits)
next
  case (3 evs)
  then show ?case by (simp add: error_step_Ended del: step.simps split: list.splits)
next
  case (4 e evs)
  then show ?case by (simp add: error_step_Ended del: step.simps split: list.splits)
qed

lemma held_step: "held t \<Longrightarrow> held (step t ev)"
  by (cases ev)
     (auto simp: held_def onOperationStarted_def onOperationEnded_def call_resolve_def
        call_reject_def Let_def split: option.splits)

lemma held_run: "held t \<Longrightarrow> held (run t evs)"
  by (induction evs arbitrary: t) (simp_all add: held_step)

lemma held_new: "held new_Transaction"
  by (simp add: held_def new_Transaction_def)

lemma settled_step: "held t \<Longrightarrow> \<not> resolve t \<Longrightarrow> promise (step t ev) = promise t \<and> \<not> resolve (step t ev)"
  by (cases ev)
     (auto simp: held_def onOperationStarted_def onOperationEnded_def call_resolve_def
        call_reject_def Let_def split: option.splits)

lemma settled_run: "held t \<Longrightarrow> \<not> resolve t \<Longrightarrow> promise (run t evs) = promise t"
proof (induction evs arbitrary: t)
  case Nil
  then show ?case by simp
next
  case (Cons ev evs)
  then show ?case using settled_step[of t ev] held_step[of t ev] by simp
qed

lemma run_append: "run t (xs @ ys) = run (run t xs) ys"
  by (induction xs arbitrary: t) simp_all

lemma settle_step:
  assumes "held t" "resolve t" "numOps (step t (Ended r)) = 0"
  shows "promise (step t (Ended r)) =
           (case error (step t (Ended r)) of
              None \<Rightarrow> Resolved
            | Some e \<Rightarrow> if truthy_thrown e then Rejected e else Resolved)
         \<and> \<not> resolve (step t (Ended r))"
  using assms
  by (auto simp: held_def onOperationEnded_def call_resolve_def call_reject_def Let_def
      split: option.splits if_splits)

text \<open>
  Claim C1, as the code has it. Take any run of a new transaction in which the functions
  of the promise are still held after \<open>evs\<close>, and in which the end of one more
  operation brings the counter of operations in flight to zero. Then the promise is
  settled there, and stays so whatever follows: it is resolved when no operation has
  failed; otherwise it is rejected with the error of the operation that failed last,
  provided that this error is a truthy value, and resolved when that value is falsy.
\<close>

theorem transaction_settles_with_last_error:
  assumes "resolve (run new_Transaction evs)"
      and "numOps (run new_Transaction (evs @ [Ended r])) = 0"
  shows "promise (run new_Transaction (evs @ Ended r # rest)) =
           (case failures (evs @ [Ended r]) of
              [] \<Rightarrow> Resolved
            | e # es \<Rightarrow>
                if truthy_thrown (last (e # es)) then Rejected (last (e # es)) else Resolved)"
proof -
  let ?t = "run new_Transaction evs"
  let ?t' = "step ?t (Ended r)"
  have h: "held ?t" by (rule held_run [OF held_new])
  have n: "numOps ?t' = 0" using assms(2) by (simp add: run_append)
  have s: "promise ?t' =
           (case error ?t' of
              None \<Rightarrow> Resolved
            | Some e \<Rightarrow> if truthy_thrown e then Rejected e else Resolved)"
    and c: "\<not> resolve ?t'"
    using settle_step [OF h assms(1) n] by simp_all
  have e: "error ?t' =
           (case failures (evs @ [Ended r]) of [] \<Rightarrow> None | e # es \<Rightarrow> Some (last (e # es)))"
  proof -
    have "error new_Transaction = None" by (simp add: new_Transaction_def)
    moreover have "run new_Transaction (evs @ [Ended r]) = ?t'" by (simp add: run_append)
    ultimately show ?thesis
      using error_run [of new_Transaction "evs @ [Ended r]"]
      by (simp del: step.simps split: list.splits)
  qed
  have "promise (run new_Transaction (evs @ Ended r # rest)) = promise (run ?t' rest)"
    by (simp add: run_append)
  also have "\<dots> = promise ?t'"
    by (rule settled_run [OF held_step [OF h] c])
  finally show ?thesis
    using s e by (simp split: list.splits)
qed

text \<open>
  Claim C1, as the specification words it, fails: two operations are in flight, the first
  fails with \<open>one\<close>, then the second fails with \<open>two\<close> and the counter is back to zero.
  The promise is rejected with \<open>two\<close>, not with the error of the first failure.
\<close>

theorem first_error_counterexample:
  "resolve (run new_Transaction [Started, Started, Ended (Some (Error ''one''))])
   \<and> numOps (run new_Transaction
        [Started, Started, Ended (Some (Error ''one'')), Ended (Some (Error ''two''))]) = 0
   \<and> failures [Started, Started, Ended (Some (Error ''one'')), Ended (Some (Error ''two''))]
       = [Error ''one'', Error ''two'']
   \<and> promise (run new_Transaction
        [Started, Started, Ended (Some (Error ''one'')), Ended (Some (Error ''two''))])
       = Rejected (Error ''two'')
   \<and> promise (run new_Transaction
        [Started, Started, Ended (Some (Error ''one'')), Ended (Some (Error ''two''))])
       \<noteq> Rejected (Error ''one'')"
  by (simp add: new_Transaction_def onOperationStarted_def onOperationEnded_def
      call_reject_def call_resolve_def Let_def)

text \<open>The same run, as an instance of the theorem, with one more call of \<^verbatim>\<open>execute\<close> after it.\<close>

theorem transaction_settles_with_last_error_witness:
  "resolve (run new_Transaction [Started, Started, Ended (Some (Error ''one''))])
   \<and> numOps (run new_Transaction
        ([Started, Started, Ended (Some (Error ''one''))] @ [Ended (Some (Error ''two''))])) = 0
   \<and> promise (run new_Transaction
        ([Started, Started, Ended (Some (Error ''one''))] @ Ended (Some (Error ''two'')) # [Started]))
       = Rejected (Error ''two'')"
proof -
  have a: "resolve (run new_Transaction [Started, Started, Ended (Some (Error ''one''))])"
    by (simp add: new_Transaction_def onOperationStarted_def onOperationEnded_def
      call_reject_def call_resolve_def Let_def)
  have b: "numOps (run new_Transaction
        ([Started, Started, Ended (Some (Error ''one''))] @ [Ended (Some (Error ''two''))])) = 0"
    by (simp add: new_Transaction_def onOperationStarted_def onOperationEnded_def
      call_reject_def call_resolve_def Let_def)
  show ?thesis
    using a b transaction_settles_with_last_error [OF a b, of "[Started]"] by simp
qed

text \<open>
  Claim C7. Once the promise of a transaction is settled, in any run, \<^verbatim>\<open>execute\<close>
  throws, whatever the operation is: the operation is not run, and the transaction, the
  backend and the callbacks delivered are as they were.
\<close>

theorem execute_after_settlement_throws:
  assumes "promise (run new_Transaction evs) \<noteq> Pending"
      and "txn s = run new_Transaction evs"
  shows "execute func s =
           (Some (Error ''Tried to start a new operation on a completed transaction''), s)"
proof -
  have "held (txn s)" using assms(2) held_run [OF held_new] by simp
  then have "\<not> resolve (txn s)" using assms by (simp add: held_def)
  then show ?thesis by (simp add: execute_def onOperationStarted_def)
qed

lemma promise_step_changes:
  "promise (step t ev) \<noteq> promise t \<Longrightarrow> (\<exists>r. ev = Ended r) \<and> numOps (step t ev) = 0"
  by (cases ev)
     (auto simp: onOperationStarted_def onOperationEnded_def call_resolve_def
        call_reject_def Let_def split: option.splits if_splits)

lemma feasible_no_Started:
  "feasible t evs \<Longrightarrow> Started \<notin> set evs \<Longrightarrow> numOps t = 0 \<Longrightarrow> evs = []"
  by (cases evs) (auto elim: feasible.elims)

text \<open>
  Claim C10. A function that registers no operation leaves the transaction as
  \<^verbatim>\<open>doTxn\<close> made it, and the promise that \<^verbatim>\<open>doTxn\<close> returns stays pending. In terms of
  events: a run of a new transaction without a call of \<^verbatim>\<open>execute\<close> leaves the promise
  pending, and the promise of a transaction changes only at the end of an operation that
  brings the counter to zero.
\<close>

theorem doTxn_without_operations_never_settles:
  "((\<forall>s. txn (func s) = txn s) \<longrightarrow> fst (doTxn func b) = Pending)
   \<and> (feasible new_Transaction evs \<and> Started \<notin> set evs
        \<longrightarrow> promise (run new_Transaction evs) = Pending)
   \<and> (promise (step t ev) \<noteq> promise t
        \<longrightarrow> (\<exists>r. ev = Ended r) \<and> numOps (step t ev) = 0)"
proof (intro conjI impI)
  assume "\<forall>s. txn (func s) = txn s"
  then show "fst (doTxn func b) = Pending"
    by (simp add: doTxn_def Let_def new_Transaction_def)
next
  assume "feasible new_Transaction evs \<and> Started \<notin> set evs"
  then have "evs = []"
    using feasible_no_Started [of new_Transaction evs] by (simp add: new_Transaction_def)
  then show "promise (run new_Transaction evs) = Pending"
    by (simp add: new_Transaction_def)
next
  assume "promise (step t ev) \<noteq> promise t"
  then show "\<exists>r. ev = Ended r" and "numOps (step t ev) = 0"
    using promise_step_changes [of t ev] by simp_all
qed

text \<open>
  An instance: the function that does nothing, the empty run, and the end of the only
  operation in flight.
\<close>

theorem doTxn_without_operations_never_settles_witness:
  "(\<forall>s :: json state. txn ((\<lambda>s. s) s) = txn s)
   \<and> fst (doTxn (\<lambda>s :: json state. s) []) = Pending
   \<and> feasible new_Transaction [] \<and> Started \<notin> set []
   \<and> promise (run new_Transaction []) = Pending
   \<and> promise (step (new_Transaction\<lparr>numOps := 1\<rparr>) (Ended None))
        \<noteq> promise (new_Transaction\<lparr>numOps := 1\<rparr>)
   \<and> numOps (step (new_Transaction\<lparr>numOps := 1\<rparr>) (Ended None)) = 0"
proof -
  have c: "promise (step (new_Transaction\<lparr>numOps := 1\<rparr>) (Ended None))
        \<noteq> promise (new_Transaction\<lparr>numOps := 1\<rparr>)"
    by (simp add: new_Transaction_def onOperationEnded_def call_resolve_def Let_def)
  show ?thesis
    using c doTxn_without_operations_never_settles
      [of "\<lambda>s :: json state. s" "[]" "[]" "new_Transaction\<lparr>numOps := 1\<rparr>" "Ended None"]
    by simp
qed

text \<open>
  An instance of claim C7: a transaction whose only operation has ended is settled, and
  the next \<^verbatim>\<open>execute\<close> throws without running the operation.
\<close>

theorem execute_after_settlement_throws_witness:
  "promise (run new_Transaction [Started, Ended None]) \<noteq> Pending
   \<and> execute (\<lambda>s. (None, s\<lparr>delivered := [JNull]\<rparr>))
        \<lparr>txn = run new_Transaction [Started, Ended None], storage = [], delivered = []\<rparr>
      = (Some (Error ''Tried to start a new operation on a completed transaction''),
         \<lparr>txn = run new_Transaction [Started, Ended None], storage = [], delivered = []\<rparr>)"
proof -
  have a: "promise (run new_Transaction [Started, Ended None]) \<noteq> Pending"
    by (simp add: new_Transaction_def onOperationStarted_def onOperationEnded_def
        call_resolve_def Let_def)
  show ?thesis
    using a execute_after_settlement_throws
      [OF a, of "\<lparr>txn = run new_Transaction [Started, Ended None], storage = [], delivered = []\<rparr>"
         "\<lambda>s. (None, s\<lparr>delivered := [JNull]\<rparr>)"]
    by simp
qed

section \<open>Properties of the store\<close>

subsection \<open>Escaping\<close>

lemma below_16: "n < 16 \<Longrightarrow> n \<in> {0, 1, 2, 3, 4, 5, 6, 7, 8, 9, 10, 11, 12, 13, 14, 15 :: nat}"
  by (simp only: insert_iff empty_iff) arith

lemma hex_val_hex_digit: "n < 16 \<Longrightarrow> hex_val (hex_digit n) = Some n"
  by (drule below_16, elim insertE) (simp_all add: hex_val_def hex_digit_def js_def)

lemma hex_digit_plain: "n < 16 \<Longrightarrow> hex_digit n \<noteq> 0x2F"
  by (drule below_16, elim insertE) (simp_all add: hex_digit_def js_def)

lemma hex_pair_digits:
  assumes "b < 256"
  shows "hex_pair (hex_digit (b div 16) # hex_digit (b mod 16) # r) = Some b"
proof -
  have "b div 16 < 16" "b mod 16 < 16" using assms by simp_all
  then show ?thesis by (simp add: hex_pair_def hex_val_hex_digit)
qed

lemma continuation_percent:
  assumes "0x80 \<le> C" "C < 0xC0"
  shows "continuation_octets (Suc k) (percent C @ r)
           = (case continuation_octets k r of None \<Rightarrow> None | Some cs \<Rightarrow> Some (C # cs))"
  using assms by (simp add: percent_def hex_pair_digits)

lemma decode_percent:
  assumes "B < 256"
  shows "decodeURIComponent (percent B @ r)
     = (if B < 0x80 then prepend [of_nat B] (decodeURIComponent r)
        else if B < 0xC0 \<or> 0xF8 \<le> B then Inl URIError
        else
          (let n = (if B < 0xE0 then 2 else if B < 0xF0 then 3 else 4 :: nat);
               lead = (if B < 0xE0 then B - 0xC0 else if B < 0xF0 then B - 0xE0
                       else B - 0xF0)
           in case continuation_octets (n - 1) r of
                None \<Rightarrow> Inl URIError
              | Some cs \<Rightarrow>
                  (let V = foldl (\<lambda>v C. v * 64 + (C - 0x80)) lead cs in
                   if valid_code_point n V
                   then prepend (utf16 V) (decodeURIComponent (drop (3 * (n - 1)) r))
                   else Inl URIError)))"
  using assms
  by (simp add: percent_def hex_pair_digits Let_def del: continuation_octets.simps
      split: option.splits)

lemma arith3: "(V div 4096 * 64 + V div 64 mod 64) * 64 + V mod 64 = (V :: nat)"
proof -
  have "V div 4096 = V div 64 div 64" by (simp add: div_mult2_eq)
  then have "V div 4096 * 64 + V div 64 mod 64 = V div 64" by simp
  then show ?thesis by simp
qed

lemma arith4:
  "((V div 262144 * 64 + V div 4096 mod 64) * 64 + V div 64 mod 64) * 64 + V mod 64 = (V :: nat)"
proof -
  have a: "V div 262144 = V div 4096 div 64" "V div 4096 = V div 64 div 64"
    by (simp_all add: div_mult2_eq)
  have "V div 262144 * 64 + V div 4096 mod 64 = V div 4096" unfolding a(1) by simp
  moreover have "V div 4096 * 64 + V div 64 mod 64 = V div 64" unfolding a(2) by simp
  ultimately show ?thesis by simp
qed

lemma length_percent [simp]: "length (percent b) = 3"
  by (simp add: percent_def)

lemma cont1:
  assumes "0x80 \<le> C" "C < 0xC0"
  shows "continuation_octets (Suc 0) (percent C @ r) = Some [C]"
  using continuation_percent [OF assms, of 0 r] by simp

lemma cont2:
  assumes "0x80 \<le> C1" "C1 < 0xC0" "0x80 \<le> C2" "C2 < 0xC0"
  shows "continuation_octets 2 (percent C1 @ percent C2 @ r) = Some [C1, C2]"
proof -
  have "continuation_octets (Suc (Suc 0)) (percent C1 @ percent C2 @ r) = Some [C1, C2]"
    using continuation_percent [OF assms(1,2), of "Suc 0" "percent C2 @ r"]
      cont1 [OF assms(3,4), of r] by simp
  then show ?thesis by (simp add: numeral_2_eq_2)
qed

lemma cont3:
  assumes "0x80 \<le> C1" "C1 < 0xC0" "0x80 \<le> C2" "C2 < 0xC0" "0x80 \<le> C3" "C3 < 0xC0"
  shows "continuation_octets 3 (percent C1 @ percent C2 @ percent C3 @ r) = Some [C1, C2, C3]"
proof -
  have "continuation_octets (Suc 2) (percent C1 @ percent C2 @ percent C3 @ r)
          = Some [C1, C2, C3]"
    using continuation_percent [OF assms(1,2), of 2 "percent C2 @ percent C3 @ r"]
      cont2 [OF assms(3,4,5,6), of r] by simp
  then show ?thesis by (simp add: numeral_3_eq_3 numeral_2_eq_2)
qed

lemma decode_escape2:
  assumes "0x80 \<le> V" "V < 0x800"
  shows "decodeURIComponent (escape V @ r) = prepend (utf16 V) (decodeURIComponent r)"
proof -
  let ?B = "0xC0 + V div 64" and ?C = "0x80 + V mod 64"
  have b: "?B < 256" using assms by simp
  have e: "escape V @ r = percent ?B @ percent ?C @ r"
    using assms by (simp add: escape_def utf8_def)
  have k: "continuation_octets (Suc 0) (percent ?C @ r) = Some [?C]"
    by (rule cont1) simp_all
  have v: "V div 64 * 64 + V mod 64 = V" by simp
  show ?thesis
    unfolding e decode_percent [OF b]
    using assms k v
    by (simp add: Let_def valid_code_point_def del: continuation_octets.simps)
qed

lemma arith3n: "4096 * (V div 4096) + V div 64 mod 64 * 64 + V mod 64 = (V :: nat)"
  using arith3 [of V] by simp

lemma arith4n:
  "262144 * (V div 262144) + 4096 * (V div 4096 mod 64) + V div 64 mod 64 * 64 + V mod 64
     = (V :: nat)"
  using arith4 [of V] by simp

lemma decode_escape1:
  assumes "V < 0x80"
  shows "decodeURIComponent (escape V @ r) = prepend (utf16 V) (decodeURIComponent r)"
proof -
  have b: "V < 256" using assms by simp
  have e: "escape V @ r = percent V @ r"
    using assms by (simp add: escape_def utf8_def)
  show ?thesis
    unfolding e decode_percent [OF b] using assms by (simp add: utf16_def)
qed

lemma decode_escape3:
  assumes "0x800 \<le> V" "V < 0x10000" "\<not> (0xD800 \<le> V \<and> V \<le> 0xDFFF)"
  shows "decodeURIComponent (escape V @ r) = prepend (utf16 V) (decodeURIComponent r)"
proof -
  let ?B = "0xE0 + V div 4096" and ?C1 = "0x80 + V div 64 mod 64" and ?C2 = "0x80 + V mod 64"
  have b: "?B < 256" "V div 4096 < 16" using assms by simp_all
  have e: "escape V @ r = percent ?B @ percent ?C1 @ percent ?C2 @ r"
    using assms by (simp add: escape_def utf8_def)
  have k: "continuation_octets 2 (percent ?C1 @ percent ?C2 @ r) = Some [?C1, ?C2]"
    by (rule cont2) simp_all
  show ?thesis
    unfolding e decode_percent [OF b(1)]
    using assms k b(2)
    by (simp add: Let_def valid_code_point_def arith3n del: continuation_octets.simps)
qed

lemma decode_escape4:
  assumes "0x10000 \<le> V" "V \<le> 0x10FFFF"
  shows "decodeURIComponent (escape V @ r) = prepend (utf16 V) (decodeURIComponent r)"
proof -
  let ?B = "0xF0 + V div 262144" and ?C1 = "0x80 + V div 4096 mod 64"
  let ?C2 = "0x80 + V div 64 mod 64" and ?C3 = "0x80 + V mod 64"
  have b: "?B < 256" "V div 262144 < 8" using assms by simp_all
  have e: "escape V @ r = percent ?B @ percent ?C1 @ percent ?C2 @ percent ?C3 @ r"
    using assms by (simp add: escape_def utf8_def)
  have k: "continuation_octets 3 (percent ?C1 @ percent ?C2 @ percent ?C3 @ r)
             = Some [?C1, ?C2, ?C3]"
    by (rule cont3) simp_all
  show ?thesis
    unfolding e decode_percent [OF b(1)]
    using assms k b(2)
    by (simp add: Let_def valid_code_point_def arith4n del: continuation_octets.simps)
qed

lemma decode_escape:
  assumes "V \<le> 0x10FFFF" and "\<not> (0xD800 \<le> V \<and> V \<le> 0xDFFF)"
  shows "decodeURIComponent (escape V @ r) = prepend (utf16 V) (decodeURIComponent r)"
proof -
  consider (one) "V < 0x80" | (two) "0x80 \<le> V" "V < 0x800"
    | (three) "0x800 \<le> V" "V < 0x10000" | (four) "0x10000 \<le> V"
    by linarith
  then show ?thesis
  proof cases
    case one
    then show ?thesis by (rule decode_escape1)
  next
    case two
    then show ?thesis by (rule decode_escape2)
  next
    case three
    then show ?thesis using assms(2) by (rule decode_escape3)
  next
    case four
    then show ?thesis using assms(1) by (rule decode_escape4)
  qed
qed

lemma unat_16: "unat (u :: 16 word) < 0x10000"
  using unsigned_less [of u, where 'a = nat] by simp

lemma utf16_unit: "utf16 (unat (u :: 16 word)) = [u]"
  using unat_16 [of u] by (simp add: utf16_def)

lemma utf16_pair:
  assumes "0xD800 \<le> unat (u :: 16 word)" "unat u < 0xDC00"
      and "0xDC00 \<le> unat (v :: 16 word)" "unat v \<le> 0xDFFF"
  shows "utf16 (code_point u v) = [u, v]"
proof -
  let ?a = "unat u - 0xD800" and ?b = "unat v - 0xDC00"
  have b: "?b < 0x400" using assms by simp
  have "(?a * 0x400 + ?b) div 0x400 = ?a" "(?a * 0x400 + ?b) mod 0x400 = ?b"
    using b by simp_all
  moreover have "0xD800 + ?a = unat u" "0xDC00 + ?b = unat v" using assms by simp_all
  ultimately show ?thesis by (simp add: utf16_def code_point_def)
qed

lemma pair_code_point:
  assumes "0xD800 \<le> unat (u :: 16 word)" "unat u < 0xDC00"
      and "0xDC00 \<le> unat (v :: 16 word)" "unat v \<le> 0xDFFF"
  shows "code_point u v \<le> 0x10FFFF"
    and "\<not> (0xD800 \<le> code_point u v \<and> code_point u v \<le> 0xDFFF)"
  using assms by (simp_all add: code_point_def)

lemma unreserved_plain: "unreserved u \<Longrightarrow> u \<noteq> 0x25 \<and> u \<noteq> 0x2F"
  by (auto simp: unreserved_def js_def)


lemma prepend_Inr: "prepend p x = Inr e \<Longrightarrow> \<exists>e'. x = Inr e' \<and> e = p @ e'"
  by (cases x) auto

lemma encode_Cons:
  assumes "encodeURIComponent (u # s) = Inr e"
  shows "(unreserved u \<and> (\<exists>e'. encodeURIComponent s = Inr e' \<and> e = u # e'))
       \<or> (\<not> unreserved u \<and> (unat u < 0xD800 \<or> 0xDFFF < unat u)
            \<and> (\<exists>e'. encodeURIComponent s = Inr e' \<and> e = escape (unat u) @ e'))
       \<or> (\<not> unreserved u \<and> 0xD800 \<le> unat u \<and> unat u < 0xDC00
            \<and> (\<exists>v s' e'. s = v # s' \<and> 0xDC00 \<le> unat v \<and> unat v \<le> 0xDFFF
                  \<and> encodeURIComponent s' = Inr e' \<and> e = escape (code_point u v) @ e'))"
proof (cases "unreserved u")
  case True
  then have "prepend [u] (encodeURIComponent s) = Inr e" using assms by simp
  then obtain e' where "encodeURIComponent s = Inr e'" "e = [u] @ e'"
    by (rule prepend_Inr [THEN exE]) simp
  then have "unreserved u \<and> (\<exists>e'. encodeURIComponent s = Inr e' \<and> e = u # e')"
    using True by simp
  then show ?thesis by (rule disjI1)
next
  case False
  show ?thesis
  proof (cases "unat u < 0xD800 \<or> 0xDFFF < unat u")
    case True
    then have "prepend (escape (unat u)) (encodeURIComponent s) = Inr e"
      using assms False by simp
    then obtain e' where "encodeURIComponent s = Inr e'" "e = escape (unat u) @ e'"
      by (rule prepend_Inr [THEN exE]) simp
    then have "\<not> unreserved u \<and> (unat u < 0xD800 \<or> 0xDFFF < unat u)
            \<and> (\<exists>e'. encodeURIComponent s = Inr e' \<and> e = escape (unat u) @ e')"
      using False True by simp
    then show ?thesis by (intro disjI2 disjI1)
  next
    case surrogate: False
    have eq: "encodeURIComponent (u # s)
        = (if 0xDC00 \<le> unat u then Inl URIError
           else (case s of
                   [] \<Rightarrow> Inl URIError
                 | v # s' \<Rightarrow>
                     if 0xDC00 \<le> unat v \<and> unat v \<le> 0xDFFF
                     then prepend (escape (code_point u v)) (encodeURIComponent s')
                     else Inl URIError))"
      using False surrogate by simp
    have high: "\<not> 0xDC00 \<le> unat u"
    proof
      assume "0xDC00 \<le> unat u"
      then have "encodeURIComponent (u # s) = Inl URIError" unfolding eq by simp
      then show False using assms by simp
    qed
    have eq2: "(case s of
                   [] \<Rightarrow> Inl URIError
                 | v # s' \<Rightarrow>
                     if 0xDC00 \<le> unat v \<and> unat v \<le> 0xDFFF
                     then prepend (escape (code_point u v)) (encodeURIComponent s')
                     else Inl URIError) = Inr e"
      using assms high unfolding eq by simp
    then obtain v s' where s: "s = v # s'" by (cases s) simp_all
    have eq3: "(if 0xDC00 \<le> unat v \<and> unat v \<le> 0xDFFF
                     then prepend (escape (code_point u v)) (encodeURIComponent s')
                     else Inl URIError) = Inr e"
      using eq2 unfolding s by simp
    have low: "0xDC00 \<le> unat v \<and> unat v \<le> 0xDFFF"
    proof (rule ccontr)
      assume "\<not> (0xDC00 \<le> unat v \<and> unat v \<le> 0xDFFF)"
      then show False using eq3 by (simp split: if_splits)
    qed
    then have "prepend (escape (code_point u v)) (encodeURIComponent s') = Inr e"
      using eq3 by simp
    then obtain e' where e': "encodeURIComponent s' = Inr e'" "e = escape (code_point u v) @ e'"
      by (rule prepend_Inr [THEN exE]) simp
    have u: "0xD800 \<le> unat u" "unat u < 0xDC00" using surrogate high by simp_all
    have "\<not> unreserved u \<and> 0xD800 \<le> unat u \<and> unat u < 0xDC00
            \<and> (\<exists>v s' e'. s = v # s' \<and> 0xDC00 \<le> unat v \<and> unat v \<le> 0xDFFF
                  \<and> encodeURIComponent s' = Inr e' \<and> e = escape (code_point u v) @ e')"
      using False u s low e' by blast
    then show ?thesis by (intro disjI2)
  qed
qed

lemma decode_encode:
  "encodeURIComponent s = Inr e \<Longrightarrow> decodeURIComponent e = Inr s"
proof (induction "length s" arbitrary: s e rule: less_induct)
  case less
  show ?case
  proof (cases s)
    case Nil
    then show ?thesis using less.prems by simp
  next
    case (Cons u t)
    from encode_Cons [OF less.prems [unfolded Cons]]
    consider (plain) e' where "unreserved u" "encodeURIComponent t = Inr e'" "e = u # e'"
      | (unit) e' where "unat u < 0xD800 \<or> 0xDFFF < unat u"
          "encodeURIComponent t = Inr e'" "e = escape (unat u) @ e'"
      | (pair) v s' e' where "0xD800 \<le> unat u" "unat u < 0xDC00" "t = v # s'"
          "0xDC00 \<le> unat v" "unat v \<le> 0xDFFF"
          "encodeURIComponent s' = Inr e'" "e = escape (code_point u v) @ e'"
      by blast
    then show ?thesis
    proof cases
      case plain
      have "decodeURIComponent e' = Inr t"
        by (rule less.hyps [OF _ plain(2)]) (simp add: Cons)
      then show ?thesis
        using unreserved_plain [OF plain(1)] by (simp add: plain(3) Cons)
    next
      case unit
      have d: "decodeURIComponent e' = Inr t"
        by (rule less.hyps [OF _ unit(2)]) (simp add: Cons)
      have "unat u \<le> 0x10FFFF" using unat_16 [of u] by simp
      moreover have "\<not> (0xD800 \<le> unat u \<and> unat u \<le> 0xDFFF)" using unit(1) by auto
      ultimately have "decodeURIComponent (escape (unat u) @ e')
                         = prepend (utf16 (unat u)) (decodeURIComponent e')"
        by (rule decode_escape)
      then show ?thesis by (simp add: unit(3) d utf16_unit Cons)
    next
      case pair
      have d: "decodeURIComponent e' = Inr s'"
        by (rule less.hyps [OF _ pair(6)]) (simp add: Cons pair(3))
      have "decodeURIComponent (escape (code_point u v) @ e')
              = prepend (utf16 (code_point u v)) (decodeURIComponent e')"
        by (rule decode_escape [OF pair_code_point [OF pair(1,2,4,5)]])
      then show ?thesis
        by (simp add: pair(7) d utf16_pair [OF pair(1,2,4,5)] Cons pair(3))
    qed
  qed
qed

lemma percent_plain: "b < 256 \<Longrightarrow> 0x2F \<notin> set (percent b)"
proof -
  assume "b < 256"
  then have "b div 16 < 16" "b mod 16 < 16" by simp_all
  then show ?thesis
    using hex_digit_plain [of "b div 16"] hex_digit_plain [of "b mod 16"]
    by (auto simp: percent_def)
qed

lemma escape_plain:
  assumes "V \<le> 0x10FFFF"
  shows "0x2F \<notin> set (escape V)"
proof -
  have "V div 262144 < 8" using assms by simp
  then have "\<forall>b \<in> set (utf8 V). b < 256"
    by (auto simp: utf8_def)
  then show ?thesis using percent_plain by (auto simp: escape_def)
qed

lemma encode_plain:
  "encodeURIComponent s = Inr e \<Longrightarrow> 0x2F \<notin> set e"
proof (induction "length s" arbitrary: s e rule: less_induct)
  case less
  show ?case
  proof (cases s)
    case Nil
    then show ?thesis using less.prems by auto
  next
    case (Cons u t)
    from encode_Cons [OF less.prems [unfolded Cons]]
    consider (plain) e' where "unreserved u" "encodeURIComponent t = Inr e'" "e = u # e'"
      | (unit) e' where "unat u < 0xD800 \<or> 0xDFFF < unat u"
          "encodeURIComponent t = Inr e'" "e = escape (unat u) @ e'"
      | (pair) v s' e' where "0xD800 \<le> unat u" "unat u < 0xDC00" "t = v # s'"
          "0xDC00 \<le> unat v" "unat v \<le> 0xDFFF"
          "encodeURIComponent s' = Inr e'" "e = escape (code_point u v) @ e'"
      by blast
    then show ?thesis
    proof cases
      case plain
      have "0x2F \<notin> set e'"
        by (rule less.hyps [OF _ plain(2)]) (simp add: Cons)
      then show ?thesis using unreserved_plain [OF plain(1)] by (auto simp: plain(3))
    next
      case unit
      have "0x2F \<notin> set e'"
        by (rule less.hyps [OF _ unit(2)]) (simp add: Cons)
      moreover have "unat u \<le> 0x10FFFF" using unat_16 [of u] by simp
      ultimately show ?thesis using escape_plain by (simp add: unit(3))
    next
      case pair
      have "0x2F \<notin> set e'"
        by (rule less.hyps [OF _ pair(6)]) (simp add: Cons pair(3))
      then show ?thesis
        using escape_plain [OF pair_code_point(1) [OF pair(1,2,4,5)]] by (simp add: pair(7))
    qed
  qed
qed


subsection \<open>Keys\<close>

lemma split_str_no_sep: "sep \<notin> set a \<Longrightarrow> split_str a sep = [a]"
  by (induction a) auto

lemma split_str_append: "sep \<notin> set a \<Longrightarrow> split_str (a @ sep # r) sep = a # split_str r sep"
  by (induction a) auto

lemma split_slash_two:
  assumes "encodeURIComponent x = Inr a" and "encodeURIComponent y = Inr c"
  shows "split_str (a @ 0x2F # c) 0x2F = [a, c]"
proof -
  have "split_str (a @ 0x2F # c) 0x2F = a # split_str c 0x2F"
    by (rule split_str_append) (rule encode_plain [OF assms(1)])
  also have "split_str c 0x2F = [c]"
    by (rule split_str_no_sep) (rule encode_plain [OF assms(2)])
  finally show ?thesis .
qed

lemma split_slash_three:
  assumes "0x2F \<notin> set p"
      and "encodeURIComponent x = Inr a" and "encodeURIComponent y = Inr c"
  shows "split_str (p @ 0x2F # a @ 0x2F # c) 0x2F = [p, a, c]"
proof -
  have "split_str (p @ 0x2F # a @ 0x2F # c) 0x2F = p # split_str (a @ 0x2F # c) 0x2F"
    by (rule split_str_append) (rule assms(1))
  then show ?thesis by (simp only: split_slash_two [OF assms(2,3)])
qed

lemma inbound_key_Inr:
  assumes "keyEndToEndInboundGroupSession sk sid = Inr k"
  shows "\<exists>a c. encodeURIComponent sk = Inr a \<and> encodeURIComponent sid = Inr c
           \<and> k = js ''crypto.inboundgroupsessions'' @ 0x2F # a @ 0x2F # c"
  using assms
  by (auto simp: keyEndToEndInboundGroupSession_def INBOUND_SESSION_PREFIX_def E2E_PREFIX_def
      js_def split: sum.splits)


lemma mark_name_Inr:
  assumes "mark_name sk sid = Inr m"
  shows "\<exists>a c. encodeURIComponent sk = Inr a \<and> encodeURIComponent sid = Inr c
           \<and> m = a @ 0x2F # c"
  using assms by (auto simp: mark_name_def js_def split: sum.splits)

lemma decodePart_three:
  assumes "encodeURIComponent x = Inr a" and "encodeURIComponent y = Inr c"
  shows "decodePart [p, a, c] (Suc 0) = Inr x" and "decodePart [p, a, c] 2 = Inr y"
  using decode_encode [OF assms(1)] decode_encode [OF assms(2)]
  by (simp_all add: decodePart_def)

lemma decode_inbound_key:
  assumes "keyEndToEndInboundGroupSession sk sid = Inr k"
  shows "decodePart (split_str k 0x2F) (Suc 0) = Inr sk"
    and "decodePart (split_str k 0x2F) 2 = Inr sid"
proof -
  obtain a c where e: "encodeURIComponent sk = Inr a" "encodeURIComponent sid = Inr c"
    and k: "k = js ''crypto.inboundgroupsessions'' @ 0x2F # a @ 0x2F # c"
    using inbound_key_Inr [OF assms] by blast
  have p: "0x2F \<notin> set (js ''crypto.inboundgroupsessions'')" by (simp add: js_def)
  have s: "split_str k 0x2F = [js ''crypto.inboundgroupsessions'', a, c]"
    unfolding k by (rule split_slash_three [OF p e])
  show "decodePart (split_str k 0x2F) (Suc 0) = Inr sk"
    and "decodePart (split_str k 0x2F) 2 = Inr sid"
    unfolding s by (rule decodePart_three [OF e])+
qed


lemma decode_mark_name:
  assumes "mark_name sk sid = Inr m"
  shows "decodePart (split_str m 0x2F) 0 = Inr sk"
    and "decodePart (split_str m 0x2F) (Suc 0) = Inr sid"
proof -
  obtain a c where e: "encodeURIComponent sk = Inr a" "encodeURIComponent sid = Inr c"
    and m: "m = a @ 0x2F # c"
    using mark_name_Inr [OF assms] by blast
  have s: "split_str m 0x2F = [a, c]"
    unfolding m by (rule split_slash_two [OF e])
  show "decodePart (split_str m 0x2F) 0 = Inr sk"
    and "decodePart (split_str m 0x2F) (Suc 0) = Inr sid"
    unfolding s using decode_encode [OF e(1)] decode_encode [OF e(2)]
    by (simp_all add: decodePart_def)
qed

lemma mark_name_key:
  "mark_name sk sid = Inr m \<Longrightarrow> \<exists>k. keyEndToEndInboundGroupSession sk sid = Inr k"
  by (auto simp: mark_name_def keyEndToEndInboundGroupSession_def split: sum.splits)


lemma inbound_key_prefix:
  "keyEndToEndInboundGroupSession sk sid = Inr k \<Longrightarrow> startsWith k INBOUND_SESSION_PREFIX"
  by (auto simp: keyEndToEndInboundGroupSession_def startsWith_def split: sum.splits)


lemma not_in_Promise: "startsWith k E2E_PREFIX \<Longrightarrow> \<not> in_Promise k"
  by (auto simp: in_Promise_def Promise_properties_def startsWith_def E2E_PREFIX_def js_def)

lemma startsWith_shorter: "startsWith k (p @ q) \<Longrightarrow> startsWith k p"
proof -
  assume "startsWith k (p @ q)"
  then have a: "take (length (p @ q)) k = p @ q" by (simp add: startsWith_def)
  have "take (length p) k = take (length p) (take (length (p @ q)) k)" by (simp add: min_def)
  also have "\<dots> = p" unfolding a by simp
  finally show ?thesis by (simp add: startsWith_def)
qed

lemma inbound_prefix_E2E: "startsWith k INBOUND_SESSION_PREFIX \<Longrightarrow> startsWith k E2E_PREFIX"
  unfolding INBOUND_SESSION_PREFIX_def by (rule startsWith_shorter)


subsection \<open>Evaluation\<close>

text \<open>The equations by which the functions are computed on given strings and backends.\<close>

lemmas string_eval =
  js_def unreserved_def hex_digit_def hex_val_def hex_pair_def percent_def utf8_def escape_def
  code_point_def utf16_def valid_code_point_def URIError_def startsWith_def decodePart_def
  E2E_PREFIX_def END_TO_END_SESSION_PREFIX_def INBOUND_SESSION_PREFIX_def
  INBOUND_SESSION_WITHHELD_PREFIX_def KEY_SESSIONS_NEEDING_BACKUP_def
  prefixEndToEndSession_def keyEndToEndSession_def keyEndToEndInboundGroupSession_def
  keyEndToEndInboundGroupSessionWithheld_def mark_name_def Let_def

lemmas store_eval =
  getAllKeys_def getItem_def setItem_def removeItem_def getJsonItem_def setJsonItem_def
  JSON_stringify_def entries_under_def inbound_entry_def session_entry_def read_json_def
  inbound_item_def sessions_with_data_def set_property_def callback_def
  or_empty_object_def in_Promise_def Promise_properties_def


subsection \<open>Deleting all data\<close>

lemma fold_removeItem:
  "fold (\<lambda>key b. removeItem b key) ks b = filter (\<lambda>(k, v). k \<notin> set ks) b"
proof (induction ks arbitrary: b)
  case Nil
  then show ?case by simp
next
  case (Cons k ks)
  have "filter (\<lambda>(k', v). k' \<notin> set ks) (removeItem b k) = filter (\<lambda>(k', v). k' \<notin> set (k # ks)) b"
    by (induction b) (auto simp: removeItem_def)
  with Cons show ?case by simp
qed

lemma map_of_filter_keys:
  "map_of (filter (\<lambda>(k, v). P k) b) k = (if P k then map_of b k else None)"
  by (induction b) auto

text \<open>
  Claim C5. After \<^verbatim>\<open>deleteAllData\<close>, no key that starts with \<^verbatim>\<open>crypto.\<close> has a value,
  and every other key has the value it had: the backend is what it was without the
  entries under \<^verbatim>\<open>crypto.\<close>.
\<close>

theorem deleteAllData_frame:
  "getItem (deleteAllData b) k = (if startsWith k E2E_PREFIX then None else getItem b k)
   \<and> deleteAllData b = filter (\<lambda>(k, v). \<not> startsWith k E2E_PREFIX) b"
proof -
  have eq: "deleteAllData b = filter (\<lambda>(k, v). \<not> startsWith k E2E_PREFIX) b"
    unfolding deleteAllData_def Let_def fold_removeItem getAllKeys_def
    by (rule filter_cong) (auto simp: image_iff)
  show ?thesis
    unfolding eq getItem_def by (simp add: map_of_filter_keys)
qed

subsection \<open>Reading the backend\<close>

lemma getItem_distinct: "distinct (map fst b) \<Longrightarrow> (k, v) \<in> set b \<Longrightarrow> getItem b k = Some v"
  by (simp add: getItem_def)

lemma entries_under_subset: "x \<in> set (entries_under p b) \<Longrightarrow> x \<in> set b"
  by (simp add: entries_under_def)

lemma keys_under:
  "filter (\<lambda>k. startsWith k p) (getAllKeys b) = map fst (entries_under p b)"
  by (induction b) (auto simp: getAllKeys_def entries_under_def)

lemma getJsonItem_entry:
  assumes "distinct (map fst b)" and "(k, JSON_stringify v) \<in> set (entries_under p b)"
  shows "getJsonItem b k = Inr v"
proof -
  have "(k, JSON_stringify v) \<in> set b" using assms(2) by (rule entries_under_subset)
  then show ?thesis
    using getItem_distinct [OF assms(1)] by (simp add: getJsonItem_def JSON_stringify_def)
qed

lemma inbound_entry_Inr:
  "inbound_entry (sk, sid, v) = Inr y \<Longrightarrow>
     \<exists>k. keyEndToEndInboundGroupSession sk sid = Inr k \<and> y = (k, JSON_stringify v)"
  by (auto simp: inbound_entry_def split: sum.splits)


lemma map_Inr_Cons:
  "map Inr xs = map f (x # es) \<Longrightarrow> \<exists>y ys. xs = y # ys \<and> f x = Inr y \<and> map Inr ys = map f es"
  by (cases xs) auto

subsection \<open>A transaction of one operation\<close>


subsection \<open>Listing the inbound group sessions\<close>

lemma storage_callback [simp]: "storage (callback c s) = storage s"
  by (simp add: callback_def)




subsection \<open>Storing, adding and reading one inbound group session\<close>














subsection \<open>Listing the sessions\<close>










subsection \<open>Batches\<close>

lemma sessions_batch_bound_all:
  "\<forall>acc. length acc < n \<longrightarrow> getEndToEndSessionsBatch_loop n b ks acc = Inr (Some xs)
           \<longrightarrow> length xs \<le> n"
proof (induction ks)
  case Nil
  then show ?case by (auto split: if_splits)
next
  case (Cons k ks)
  show ?case
  proof (intro allI impI)
    fix acc
    assume l: "length acc < n"
       and r: "getEndToEndSessionsBatch_loop n b (k # ks) acc = Inr (Some xs)"
    from r obtain v where v: "getJsonItem b k = Inr v"
      by (auto split: sum.splits)
    show "length xs \<le> n"
    proof (cases "truthy v")
      case False
      then show ?thesis using Cons l r v by simp
    next
      case True
      show ?thesis
      proof (cases "n \<le> Suc (length acc)")
        case True
        then show ?thesis using l r v \<open>truthy v\<close> by (auto simp: Let_def)
      next
        case False
        then have "length (acc @ [v]) < n" by simp
        moreover have "getEndToEndSessionsBatch_loop n b ks (acc @ [v]) = Inr (Some xs)"
          using r v \<open>truthy v\<close> False by (simp add: Let_def)
        ultimately show ?thesis using Cons by blast
      qed
    qed
  qed
qed

lemma inbound_batch_facts:
  "\<forall>acc. (\<forall>k \<in> set ks. startsWith k INBOUND_SESSION_PREFIX)
           \<longrightarrow> (\<forall>x \<in> set acc. \<not> needsBackup x)
           \<longrightarrow> getEndToEndInboundGroupSessionsBatch_loop n b ks acc = Inr (Some xs)
           \<longrightarrow> (length acc < n \<longrightarrow> length xs \<le> n) \<and> (\<forall>x \<in> set xs. \<not> needsBackup x)"
proof (induction ks)
  case Nil
  then show ?case by (auto split: if_splits)
next
  case (Cons k ks)
  show ?case
  proof (intro allI impI)
    fix acc
    assume ks: "\<forall>k \<in> set (k # ks). startsWith k INBOUND_SESSION_PREFIX"
       and a: "\<forall>x \<in> set acc. \<not> needsBackup x"
       and r: "getEndToEndInboundGroupSessionsBatch_loop n b (k # ks) acc = Inr (Some xs)"
    have p: "\<not> in_Promise k"
      using ks not_in_Promise inbound_prefix_E2E by simp
    from r obtain sk sid v where d:
      "decodePart (split_str k 0x2F) (Suc 0) = Inr sk"
      "decodePart (split_str k 0x2F) 2 = Inr sid"
      "getJsonItem b k = Inr v"
      by (auto simp: Let_def split: sum.splits)
    let ?x = "\<lparr>senderKey = sk, sessionId = sid, sessionData = v, needsBackup = False\<rparr>"
    show "(length acc < n \<longrightarrow> length xs \<le> n) \<and> (\<forall>x \<in> set xs. \<not> needsBackup x)"
    proof (cases "n \<le> Suc (length acc)")
      case True
      then have "xs = acc @ [?x]" using r d p by (simp add: Let_def)
      then show ?thesis using a True by auto
    next
      case False
      then have "length (acc @ [?x]) < n" by simp
      moreover have "getEndToEndInboundGroupSessionsBatch_loop n b ks (acc @ [?x])
                       = Inr (Some xs)"
        using r d p False by (simp add: Let_def)
      moreover have "\<forall>x \<in> set (acc @ [?x]). \<not> needsBackup x" using a by simp
      moreover have "\<forall>k \<in> set ks. startsWith k INBOUND_SESSION_PREFIX" using ks by simp
      ultimately show ?thesis using Cons by blast
    qed
  qed
qed

lemma sessions_batch_loop:
  assumes "length acc < n"
      and "\<And>k info. (k, info) \<in> set es \<Longrightarrow> getJsonItem b k = Inr (JObj info)"
  shows "getEndToEndSessionsBatch_loop n b (map fst es) acc
           = Inr (if acc @ map (\<lambda>(k, info). JObj info) es = [] then None
                  else Some (take n (acc @ map (\<lambda>(k, info). JObj info) es)))"
  using assms
proof (induction es arbitrary: acc)
  case Nil
  then show ?case by simp
next
  case (Cons x es)
  obtain k info where x: "x = (k, info)" by (cases x) auto
  have g: "getJsonItem b k = Inr (JObj info)" using Cons.prems(2) x by simp
  show ?case
  proof (cases "n \<le> Suc (length acc)")
    case True
    then have "Suc (length acc) = n" "n - length acc = Suc 0" using Cons.prems(1) by simp_all
    then show ?thesis using g by (simp add: x Let_def)
  next
    case False
    then have l: "length (acc @ [JObj info]) < n" by simp
    have "getEndToEndSessionsBatch_loop n b (map fst es) (acc @ [JObj info])
           = Inr (if (acc @ [JObj info]) @ map (\<lambda>(k, info). JObj info) es = [] then None
                  else Some (take n ((acc @ [JObj info]) @ map (\<lambda>(k, info). JObj info) es)))"
      by (rule Cons.IH [OF l]) (use Cons.prems(2) in simp)
    then show ?thesis using g False by (simp add: x Let_def)
  qed
qed

lemma inbound_batch_step:
  assumes "keyEndToEndInboundGroupSession sk sid = Inr k" and "getJsonItem b k = Inr v"
  shows "getEndToEndInboundGroupSessionsBatch_loop n b (k # ks) acc
         = (if n \<le> Suc (length acc) then Inr (Some (acc @ [SessionExtended_of (sk, sid, v)]))
            else getEndToEndInboundGroupSessionsBatch_loop n b ks
                   (acc @ [SessionExtended_of (sk, sid, v)]))"
  using assms(2) not_in_Promise [OF inbound_prefix_E2E [OF inbound_key_prefix [OF assms(1)]]]
  by (simp add: decode_inbound_key [OF assms(1)] Let_def SessionExtended_of_def)

lemma inbound_batch_loop:
  assumes "length acc < n"
      and "map Inr ys = map inbound_entry es"
      and "\<And>k v. (k, JSON_stringify v) \<in> set ys \<Longrightarrow> getJsonItem b k = Inr v"
  shows "getEndToEndInboundGroupSessionsBatch_loop n b (map fst ys) acc
           = Inr (if acc @ map SessionExtended_of es = [] then None
                  else Some (take n (acc @ map SessionExtended_of es)))"
  using assms
proof (induction es arbitrary: ys acc)
  case Nil
  then show ?case by simp
next
  case (Cons x es)
  obtain sk sid v where x: "x = (sk, sid, v)" by (cases x) auto
  obtain y ys' where ys: "ys = y # ys'" and y: "inbound_entry x = Inr y"
    and ys': "map Inr ys' = map inbound_entry es"
    using map_Inr_Cons [OF Cons.prems(2)] by blast
  obtain k where k: "keyEndToEndInboundGroupSession sk sid = Inr k"
    and yk: "y = (k, JSON_stringify v)"
    using inbound_entry_Inr y x by blast
  have g: "getJsonItem b k = Inr v"
    by (rule Cons.prems(3)) (simp add: ys yk)
  have s: "getEndToEndInboundGroupSessionsBatch_loop n b (map fst ys) acc
         = (if n \<le> Suc (length acc) then Inr (Some (acc @ [SessionExtended_of x]))
            else getEndToEndInboundGroupSessionsBatch_loop n b (map fst ys')
                   (acc @ [SessionExtended_of x]))"
    using inbound_batch_step [OF k g] by (simp add: x ys yk)
  show ?case
  proof (cases "n \<le> Suc (length acc)")
    case True
    then have "Suc (length acc) = n" "n - length acc = Suc 0" using Cons.prems(1) by simp_all
    then show ?thesis unfolding s by simp
  next
    case False
    then have l: "length (acc @ [SessionExtended_of x]) < n" by simp
    have "getEndToEndInboundGroupSessionsBatch_loop n b (map fst ys')
            (acc @ [SessionExtended_of x])
           = Inr (if (acc @ [SessionExtended_of x]) @ map SessionExtended_of es = [] then None
                  else Some (take n ((acc @ [SessionExtended_of x]) @ map SessionExtended_of es)))"
      by (rule Cons.IH [OF l ys']) (use Cons.prems(3) ys in simp)
    then show ?thesis unfolding s using False by simp
  qed
qed

text \<open>
  Claim C6, for any batch size above zero and a backend with distinct keys. Let the
  entries under the prefix of the sessions be serialised objects, and the entries under
  the prefix of the inbound group sessions be entries written by this store. With no
  entry under its prefix, either batch function returns \<^verbatim>\<open>null\<close>; with at least one
  entry and fewer than the batch size, it returns the list of exactly these entries.
  On any backend, the list that a batch function returns is never longer than the batch
  size.
\<close>

theorem batch_retrieval:
  assumes "0 < SESSION_BATCH_SIZE" and "distinct (map fst b)"
  shows "(entries_under END_TO_END_SESSION_PREFIX b
            = map (\<lambda>(k, info). (k, JSON_stringify (JObj info))) es \<longrightarrow>
            (es = [] \<longrightarrow> getEndToEndSessionsBatch SESSION_BATCH_SIZE b = Inr None)
            \<and> (1 \<le> length es \<and> length es < SESSION_BATCH_SIZE \<longrightarrow>
                 getEndToEndSessionsBatch SESSION_BATCH_SIZE b
                   = Inr (Some (map (\<lambda>(k, info). JObj info) es))))
         \<and> (map Inr (entries_under INBOUND_SESSION_PREFIX b) = map inbound_entry gs \<longrightarrow>
            (gs = [] \<longrightarrow> getEndToEndInboundGroupSessionsBatch SESSION_BATCH_SIZE b = Inr None)
            \<and> (1 \<le> length gs \<and> length gs < SESSION_BATCH_SIZE \<longrightarrow>
                 getEndToEndInboundGroupSessionsBatch SESSION_BATCH_SIZE b
                   = Inr (Some (map SessionExtended_of gs))))
         \<and> (\<forall>xs. getEndToEndSessionsBatch SESSION_BATCH_SIZE b = Inr (Some xs)
                \<longrightarrow> length xs \<le> SESSION_BATCH_SIZE)
         \<and> (\<forall>xs. getEndToEndInboundGroupSessionsBatch SESSION_BATCH_SIZE b = Inr (Some xs)
                \<longrightarrow> length xs \<le> SESSION_BATCH_SIZE)"
proof (intro conjI impI allI)
  let ?n = SESSION_BATCH_SIZE
  {
    assume e: "entries_under END_TO_END_SESSION_PREFIX b
                 = map (\<lambda>(k, info). (k, JSON_stringify (JObj info))) es"
    have k: "filter (\<lambda>k. startsWith k END_TO_END_SESSION_PREFIX) (getAllKeys b) = map fst es"
      by (simp add: keys_under e case_prod_unfold comp_def)
    have g: "\<And>k info. (k, info) \<in> set es \<Longrightarrow> getJsonItem b k = Inr (JObj info)"
    proof -
      fix k info
      assume "(k, info) \<in> set es"
      then have "(k, JSON_stringify (JObj info))
                   \<in> set (map (\<lambda>(k, info). (k, JSON_stringify (JObj info))) es)"
        by force
      then show "getJsonItem b k = Inr (JObj info)"
        unfolding e [symmetric] by (rule getJsonItem_entry [OF assms(2)])
    qed
    have r: "getEndToEndSessionsBatch ?n b
               = Inr (if map (\<lambda>(k, info). JObj info) es = [] then None
                      else Some (take ?n (map (\<lambda>(k, info). JObj info) es)))"
      using sessions_batch_loop [of "[]" ?n es b, OF _ g] assms(1)
      by (simp add: getEndToEndSessionsBatch_def k)
    {
      assume "es = []"
      then show "getEndToEndSessionsBatch ?n b = Inr None" using r by simp
    }
    {
      assume "1 \<le> length es \<and> length es < ?n"
      then show "getEndToEndSessionsBatch ?n b = Inr (Some (map (\<lambda>(k, info). JObj info) es))"
        using r by auto
    }
  }
  {
    assume e: "map Inr (entries_under INBOUND_SESSION_PREFIX b) = map inbound_entry gs"
    have k: "filter (\<lambda>k. startsWith k INBOUND_SESSION_PREFIX) (getAllKeys b)
               = map fst (entries_under INBOUND_SESSION_PREFIX b)"
      by (rule keys_under)
    have g: "\<And>k v. (k, JSON_stringify v) \<in> set (entries_under INBOUND_SESSION_PREFIX b) \<Longrightarrow>
               getJsonItem b k = Inr v"
      by (rule getJsonItem_entry [OF assms(2)])
    have r: "getEndToEndInboundGroupSessionsBatch ?n b
               = Inr (if map SessionExtended_of gs = [] then None
                      else Some (take ?n (map SessionExtended_of gs)))"
      using inbound_batch_loop [of "[]" ?n, OF _ e g] assms(1)
      by (simp add: getEndToEndInboundGroupSessionsBatch_def k)
    {
      assume "gs = []"
      then show "getEndToEndInboundGroupSessionsBatch ?n b = Inr None" using r by simp
    }
    {
      assume "1 \<le> length gs \<and> length gs < ?n"
      then show "getEndToEndInboundGroupSessionsBatch ?n b = Inr (Some (map SessionExtended_of gs))"
        using r by auto
    }
  }
  {
    fix xs
    assume "getEndToEndSessionsBatch ?n b = Inr (Some xs)"
    then show "length xs \<le> ?n"
      using sessions_batch_bound_all
          [where ks = "filter (\<lambda>k. startsWith k END_TO_END_SESSION_PREFIX) (getAllKeys b)"
             and n = ?n and b = b and xs = xs, THEN spec [where x = "[]"]] assms(1)
      by (simp add: getEndToEndSessionsBatch_def)
  }
  {
    fix xs
    assume "getEndToEndInboundGroupSessionsBatch ?n b = Inr (Some xs)"
    then show "length xs \<le> ?n"
      using inbound_batch_facts
          [where ks = "filter (\<lambda>k. startsWith k INBOUND_SESSION_PREFIX) (getAllKeys b)"
             and n = ?n and b = b and xs = xs, THEN spec [where x = "[]"]] assms(1)
      by (simp add: getEndToEndInboundGroupSessionsBatch_def)
  }
qed

text \<open>
  Two instances with the batch size 50: the empty backend, and a backend with two sessions
  and one inbound group session beside an unrelated key.
\<close>

theorem batch_retrieval_witness:
  "(0 :: nat) < 50 \<and> distinct (map fst ([] :: backend))
   \<and> entries_under END_TO_END_SESSION_PREFIX []
       = map (\<lambda>(k, info). (k, JSON_stringify (JObj info))) []
   \<and> map Inr (entries_under INBOUND_SESSION_PREFIX []) = map inbound_entry []
   \<and> getEndToEndSessionsBatch 50 [] = Inr None
   \<and> getEndToEndInboundGroupSessionsBatch 50 [] = Inr None
   \<and> distinct (map fst
        [(js ''crypto.sessions/dev1/sess1'',
          Text (JObj [(js ''sessionId'', JStr (js ''some-id''))])),
         (js ''someOtherData'', NotJson (js ''preciousData'')),
         (js ''crypto.inboundgroupsessions/this%2Fthat/here%2Fthere'', Text (JObj [])),
         (js ''crypto.sessions/dev1/sess2'',
          Text (JObj [(js ''sessionId'', JStr (js ''another-id''))]))])
   \<and> 1 \<le> length [(js ''crypto.sessions/dev1/sess1'', [(js ''sessionId'', JStr (js ''some-id''))]),
                   (js ''crypto.sessions/dev1/sess2'',
                    [(js ''sessionId'', JStr (js ''another-id''))])]
   \<and> length [(js ''crypto.sessions/dev1/sess1'', [(js ''sessionId'', JStr (js ''some-id''))]),
               (js ''crypto.sessions/dev1/sess2'', [(js ''sessionId'', JStr (js ''another-id''))])]
       < (50 :: nat)
   \<and> getEndToEndSessionsBatch 50
        [(js ''crypto.sessions/dev1/sess1'',
          Text (JObj [(js ''sessionId'', JStr (js ''some-id''))])),
         (js ''someOtherData'', NotJson (js ''preciousData'')),
         (js ''crypto.inboundgroupsessions/this%2Fthat/here%2Fthere'', Text (JObj [])),
         (js ''crypto.sessions/dev1/sess2'',
          Text (JObj [(js ''sessionId'', JStr (js ''another-id''))]))]
       = Inr (Some [JObj [(js ''sessionId'', JStr (js ''some-id''))],
                    JObj [(js ''sessionId'', JStr (js ''another-id''))]])
   \<and> 1 \<le> length [(js ''this/that'', js ''here/there'', JObj [])]
   \<and> length [(js ''this/that'', js ''here/there'', JObj [])] < (50 :: nat)
   \<and> getEndToEndInboundGroupSessionsBatch 50
        [(js ''crypto.sessions/dev1/sess1'',
          Text (JObj [(js ''sessionId'', JStr (js ''some-id''))])),
         (js ''someOtherData'', NotJson (js ''preciousData'')),
         (js ''crypto.inboundgroupsessions/this%2Fthat/here%2Fthere'', Text (JObj [])),
         (js ''crypto.sessions/dev1/sess2'',
          Text (JObj [(js ''sessionId'', JStr (js ''another-id''))]))]
       = Inr (Some [\<lparr>senderKey = js ''this/that'', sessionId = js ''here/there'',
                      sessionData = JObj [], needsBackup = False\<rparr>])
   \<and> length [JObj [(js ''sessionId'', JStr (js ''some-id''))],
               JObj [(js ''sessionId'', JStr (js ''another-id''))]] \<le> (50 :: nat)"
proof -
  let ?b = "[(js ''crypto.sessions/dev1/sess1'',
          Text (JObj [(js ''sessionId'', JStr (js ''some-id''))])),
         (js ''someOtherData'', NotJson (js ''preciousData'')),
         (js ''crypto.inboundgroupsessions/this%2Fthat/here%2Fthere'', Text (JObj [])),
         (js ''crypto.sessions/dev1/sess2'',
          Text (JObj [(js ''sessionId'', JStr (js ''another-id''))]))]"
  let ?es = "[(js ''crypto.sessions/dev1/sess1'', [(js ''sessionId'', JStr (js ''some-id''))]),
              (js ''crypto.sessions/dev1/sess2'', [(js ''sessionId'', JStr (js ''another-id''))])]"
  let ?gs = "[(js ''this/that'', js ''here/there'', JObj [])]"
  have n: "(0 :: nat) < 50" by simp
  have a0: "distinct (map fst ([] :: backend))" by simp
  have e0: "entries_under END_TO_END_SESSION_PREFIX []
              = map (\<lambda>(k, info). (k, JSON_stringify (JObj info))) []"
    by (simp add: entries_under_def)
  have g0: "map Inr (entries_under INBOUND_SESSION_PREFIX []) = map inbound_entry []"
    by (simp add: entries_under_def)
  have a: "distinct (map fst ?b)" by (simp add: js_def)
  have e: "entries_under END_TO_END_SESSION_PREFIX ?b
             = map (\<lambda>(k, info). (k, JSON_stringify (JObj info))) ?es"
    by (simp add: string_eval store_eval)
  have g: "map Inr (entries_under INBOUND_SESSION_PREFIX ?b) = map inbound_entry ?gs"
    by (simp add: string_eval store_eval)
  show ?thesis
    using n a0 e0 g0 a e g
      batch_retrieval [OF n a0, where es = "[]" and gs = "[]"]
      batch_retrieval [OF n a, where es = ?es and gs = ?gs]
    by (simp add: SessionExtended_of_def)
qed

text \<open>
  Claim C9. Whatever the backend holds, and so whatever sessions are marked as needing
  backup: every element of a list that \<^verbatim>\<open>getEndToEndInboundGroupSessionsBatch\<close> returns has
  \<^verbatim>\<open>needsBackup\<close> false.
\<close>

theorem inbound_batch_needsBackup_is_false:
  assumes "getEndToEndInboundGroupSessionsBatch SESSION_BATCH_SIZE b = Inr (Some xs)"
  shows "\<forall>x \<in> set xs. \<not> needsBackup x"
  using assms inbound_batch_facts
      [where ks = "filter (\<lambda>k. startsWith k INBOUND_SESSION_PREFIX) (getAllKeys b)"
         and n = SESSION_BATCH_SIZE and b = b and xs = xs, THEN spec [where x = "[]"]]
  by (simp add: getEndToEndInboundGroupSessionsBatch_def)

text \<open>
  An instance: the one inbound group session of the backend is marked as needing backup
  and \<^verbatim>\<open>getSessionsNeedingBackup\<close> returns it, and yet the batch has it with
  \<^verbatim>\<open>needsBackup\<close> false.
\<close>

theorem inbound_batch_needsBackup_is_false_witness:
  "getSessionsNeedingBackup
      [(js ''crypto.inboundgroupsessions/bob/one'',
        Text (JObj [(js ''session'', JStr (js ''s''))])),
       (js ''crypto.sessionsneedingbackup'', Text (JObj [(js ''bob/one'', JBool True)]))] 0
     = Inr [\<lparr>senderKey = js ''bob'', sessionId = js ''one'',
             sessionData = JObj [(js ''session'', JStr (js ''s''))]\<rparr>]
   \<and> getEndToEndInboundGroupSessionsBatch 50
      [(js ''crypto.inboundgroupsessions/bob/one'',
        Text (JObj [(js ''session'', JStr (js ''s''))])),
       (js ''crypto.sessionsneedingbackup'', Text (JObj [(js ''bob/one'', JBool True)]))]
     = Inr (Some [\<lparr>senderKey = js ''bob'', sessionId = js ''one'',
                   sessionData = JObj [(js ''session'', JStr (js ''s''))],
                   needsBackup = False\<rparr>])
   \<and> \<not> needsBackup \<lparr>senderKey = js ''bob'', sessionId = js ''one'',
                   sessionData = JObj [(js ''session'', JStr (js ''s''))],
                   needsBackup = False\<rparr>"
proof -
  let ?b = "[(js ''crypto.inboundgroupsessions/bob/one'',
        Text (JObj [(js ''session'', JStr (js ''s''))])),
       (js ''crypto.sessionsneedingbackup'', Text (JObj [(js ''bob/one'', JBool True)]))]"
  have m: "getSessionsNeedingBackup ?b 0
     = Inr [\<lparr>senderKey = js ''bob'', sessionId = js ''one'',
             sessionData = JObj [(js ''session'', JStr (js ''s''))]\<rparr>]"
    by (simp add: string_eval store_eval getSessionsNeedingBackup_def)
  have h: "getEndToEndInboundGroupSessionsBatch 50 ?b
     = Inr (Some [\<lparr>senderKey = js ''bob'', sessionId = js ''one'',
                   sessionData = JObj [(js ''session'', JStr (js ''s''))],
                   needsBackup = False\<rparr>])"
    by (simp add: string_eval store_eval getEndToEndInboundGroupSessionsBatch_def)
  show ?thesis
    using m h inbound_batch_needsBackup_is_false [OF h] by simp
qed

subsection \<open>Sessions needing backup\<close>

lemma backup_loop_step:
  assumes "mark_name sk sid = Inr m" and "keyEndToEndInboundGroupSession sk sid = Inr k"
  shows "getSessionsNeedingBackup_loop b limit (m # ks) acc
   = (case getJsonItem b k of
        Inl e \<Rightarrow> Inl e
      | Inr v \<Rightarrow>
          if \<not> truthy v then getSessionsNeedingBackup_loop b limit ks acc
          else if limit \<noteq> 0 \<and> limit \<le> int (Suc (length acc))
               then Inr (acc @ [\<lparr>senderKey = sk, sessionId = sid, sessionData = v\<rparr>])
               else getSessionsNeedingBackup_loop b limit ks
                      (acc @ [\<lparr>senderKey = sk, sessionId = sid, sessionData = v\<rparr>]))"
  by (simp add: decode_mark_name [OF assms(1)] assms(2) Let_def split: sum.splits)

lemma backup_loop:
  assumes "limit = 0 \<or> int (length acc) < limit"
      and "map Inr ms = map (\<lambda>(sk, sid). mark_name sk sid) marked"
      and "\<forall>(sk, sid) \<in> set marked.
             inbound_item b sk sid = None
             \<or> (\<exists>data. inbound_item b sk sid = Some (JSON_stringify (JObj data)))"
  shows "getSessionsNeedingBackup_loop b limit ms acc
         = Inr (if limit = 0 then acc @ sessions_with_data b marked
                else take (nat limit) (acc @ sessions_with_data b marked))"
  using assms
proof (induction marked arbitrary: ms acc)
  case Nil
  then show ?case by (auto simp: sessions_with_data_def)
next
  case (Cons x marked)
  obtain sk sid where x: "x = (sk, sid)" by (cases x) auto
  obtain m ms' where ms: "ms = m # ms'" and m: "mark_name sk sid = Inr m"
    and ms': "map Inr ms' = map (\<lambda>(sk, sid). mark_name sk sid) marked"
    using map_Inr_Cons [OF Cons.prems(2)] x by auto
  obtain k where k: "keyEndToEndInboundGroupSession sk sid = Inr k"
    using mark_name_key [OF m] by blast
  have i: "inbound_item b sk sid = getItem b k" by (simp add: inbound_item_def k)
  have r: "\<forall>(sk, sid) \<in> set marked.
             inbound_item b sk sid = None
             \<or> (\<exists>data. inbound_item b sk sid = Some (JSON_stringify (JObj data)))"
    using Cons.prems(3) by simp
  from Cons.prems(3) x i consider
      (absent) "getItem b k = None"
    | (present) data where "getItem b k = Some (JSON_stringify (JObj data))"
    by auto
  then show ?case
  proof cases
    case absent
    then have "getJsonItem b k = Inr JNull" by (simp add: getJsonItem_def)
    then have "getSessionsNeedingBackup_loop b limit (m # ms') acc
               = getSessionsNeedingBackup_loop b limit ms' acc"
      by (simp add: backup_loop_step [OF m k] del: getSessionsNeedingBackup_loop.simps)
    moreover have "sessions_with_data b (x # marked) = sessions_with_data b marked"
      using absent by (simp add: sessions_with_data_def x i)
    ultimately show ?thesis
      unfolding ms using Cons.IH [OF Cons.prems(1) ms' r] by simp
  next
    case present
    let ?x = "\<lparr>senderKey = sk, sessionId = sid, sessionData = JObj data\<rparr>"
    have g: "getJsonItem b k = Inr (JObj data)"
      using present by (simp add: getJsonItem_def JSON_stringify_def)
    have w: "sessions_with_data b (x # marked) = ?x # sessions_with_data b marked"
      using present by (simp add: sessions_with_data_def x i JSON_stringify_def)
    show ?thesis
    proof (cases "limit \<noteq> 0 \<and> limit \<le> int (Suc (length acc))")
      case True
      then have "nat limit = Suc (length acc)" using Cons.prems(1) by auto
      then have "take (nat limit) (acc @ ?x # sessions_with_data b marked) = acc @ [?x]"
        by simp
      then show ?thesis
        unfolding ms w using g True
        by (simp add: backup_loop_step [OF m k] del: getSessionsNeedingBackup_loop.simps)
    next
      case False
      then have l: "limit = 0 \<or> int (length (acc @ [?x])) < limit" by auto
      have "getSessionsNeedingBackup_loop b limit (m # ms') acc
               = getSessionsNeedingBackup_loop b limit ms' (acc @ [?x])"
        using g False
        by (auto simp add: backup_loop_step [OF m k]
            simp del: getSessionsNeedingBackup_loop.simps)
      then show ?thesis
        unfolding ms w using Cons.IH [OF l ms' r] by simp
    qed
  qed
qed

text \<open>
  Claim C8. Let \<open>m\<close> be the membership map of the backend (empty when none is stored).
  \<^verbatim>\<open>countSessionsNeedingBackup\<close> returns the number of its entries, whatever else the
  backend holds. Let the entries of \<open>m\<close> be the marks of the pairs \<open>marked\<close>, as
  \<^verbatim>\<open>markSessionsNeedingBackup\<close> names them, let what is stored for a marked session be
  session data (an object), and let the limit not be negative. With the limit 0,
  \<^verbatim>\<open>getSessionsNeedingBackup\<close> returns exactly the marked sessions whose data is in the
  backend, each with its data, and no session for a mark without data; with a limit
  above 0 it returns the first \<open>limit\<close> of them, so never more than \<open>limit\<close>.
\<close>

theorem sessions_needing_backup:
  assumes "getItem b KEY_SESSIONS_NEEDING_BACKUP = None \<and> m = []
           \<or> getItem b KEY_SESSIONS_NEEDING_BACKUP = Some (JSON_stringify (JObj m))"
  shows "countSessionsNeedingBackup b = Inr (length m)
         \<and> (map Inr (map fst m) = map (\<lambda>(sk, sid). mark_name sk sid) marked
             \<and> (\<forall>(sk, sid) \<in> set marked.
                   inbound_item b sk sid = None
                   \<or> (\<exists>data. inbound_item b sk sid = Some (JSON_stringify (JObj data))))
             \<and> 0 \<le> limit
             \<longrightarrow> getSessionsNeedingBackup b limit
                   = Inr (if limit = 0 then sessions_with_data b marked
                          else take (nat limit) (sessions_with_data b marked))
                 \<and> (\<forall>xs. limit \<noteq> 0 \<and> getSessionsNeedingBackup b limit = Inr xs
                          \<longrightarrow> int (length xs) \<le> limit))"
proof -
  from assms obtain x where x: "getJsonItem b KEY_SESSIONS_NEEDING_BACKUP = Inr x"
      "or_empty_object x = JObj m"
    by (auto simp: getJsonItem_def JSON_stringify_def or_empty_object_def)
  have c: "countSessionsNeedingBackup b = Inr (length m)"
    by (simp add: countSessionsNeedingBackup_def x)
  {
    assume k: "map Inr (map fst m) = map (\<lambda>(sk, sid). mark_name sk sid) marked"
       and d: "\<forall>(sk, sid) \<in> set marked.
                   inbound_item b sk sid = None
                   \<or> (\<exists>data. inbound_item b sk sid = Some (JSON_stringify (JObj data)))"
       and l: "0 \<le> limit"
    have "limit = 0 \<or> int (length ([] :: ISession list)) < limit" using l by auto
    then have "getSessionsNeedingBackup_loop b limit (map fst m) []
         = Inr (if limit = 0 then [] @ sessions_with_data b marked
                else take (nat limit) ([] @ sessions_with_data b marked))"
      using k d by (rule backup_loop)
    then have g: "getSessionsNeedingBackup b limit
                   = Inr (if limit = 0 then sessions_with_data b marked
                          else take (nat limit) (sessions_with_data b marked))"
      by (simp add: getSessionsNeedingBackup_def x del: getSessionsNeedingBackup_loop.simps)
    have "\<forall>xs. limit \<noteq> 0 \<and> getSessionsNeedingBackup b limit = Inr xs
                          \<longrightarrow> int (length xs) \<le> limit"
      using l unfolding g by auto
    note g this
  }
  with c show ?thesis by blast
qed

text \<open>
  An instance: three sessions are marked, the second has no data; the limits 0 and 1.
\<close>

theorem sessions_needing_backup_witness:
  "markSessionsNeedingBackup
      [(js ''crypto.inboundgroupsessions/bob/one'',
        Text (JObj [(js ''session'', JStr (js ''s1''))])),
       (js ''crypto.inboundgroupsessions/this%2Fthat/here%2Fthere'',
        Text (JObj [(js ''session'', JStr (js ''s2''))]))]
      [\<lparr>senderKey = js ''bob'', sessionId = js ''one'', sessionData = JNull\<rparr>,
       \<lparr>senderKey = js ''bob'', sessionId = js ''two'', sessionData = JNull\<rparr>,
       \<lparr>senderKey = js ''this/that'', sessionId = js ''here/there'', sessionData = JNull\<rparr>]
     = Inr [(js ''crypto.inboundgroupsessions/bob/one'',
        Text (JObj [(js ''session'', JStr (js ''s1''))])),
       (js ''crypto.inboundgroupsessions/this%2Fthat/here%2Fthere'',
        Text (JObj [(js ''session'', JStr (js ''s2''))])),
       (js ''crypto.sessionsneedingbackup'',
        Text (JObj [(js ''bob/one'', JBool True), (js ''bob/two'', JBool True),
                    (js ''this%2Fthat/here%2Fthere'', JBool True)]))]
   \<and> getItem [(js ''crypto.inboundgroupsessions/bob/one'',
        Text (JObj [(js ''session'', JStr (js ''s1''))])),
       (js ''crypto.inboundgroupsessions/this%2Fthat/here%2Fthere'',
        Text (JObj [(js ''session'', JStr (js ''s2''))])),
       (js ''crypto.sessionsneedingbackup'',
        Text (JObj [(js ''bob/one'', JBool True), (js ''bob/two'', JBool True),
                    (js ''this%2Fthat/here%2Fthere'', JBool True)]))] KEY_SESSIONS_NEEDING_BACKUP
       = Some (JSON_stringify (JObj [(js ''bob/one'', JBool True), (js ''bob/two'', JBool True),
        (js ''this%2Fthat/here%2Fthere'', JBool True)]))
   \<and> map Inr (map fst [(js ''bob/one'', JBool True), (js ''bob/two'', JBool True),
        (js ''this%2Fthat/here%2Fthere'', JBool True)])
       = map (\<lambda>(sk, sid). mark_name sk sid)
           [(js ''bob'', js ''one''), (js ''bob'', js ''two''),
            (js ''this/that'', js ''here/there'')]
   \<and> inbound_item [(js ''crypto.inboundgroupsessions/bob/one'',
        Text (JObj [(js ''session'', JStr (js ''s1''))])),
       (js ''crypto.inboundgroupsessions/this%2Fthat/here%2Fthere'',
        Text (JObj [(js ''session'', JStr (js ''s2''))])),
       (js ''crypto.sessionsneedingbackup'',
        Text (JObj [(js ''bob/one'', JBool True), (js ''bob/two'', JBool True),
                    (js ''this%2Fthat/here%2Fthere'', JBool True)]))] (js ''bob'') (js ''one'')
       = Some (JSON_stringify (JObj [(js ''session'', JStr (js ''s1''))]))
   \<and> inbound_item [(js ''crypto.inboundgroupsessions/bob/one'',
        Text (JObj [(js ''session'', JStr (js ''s1''))])),
       (js ''crypto.inboundgroupsessions/this%2Fthat/here%2Fthere'',
        Text (JObj [(js ''session'', JStr (js ''s2''))])),
       (js ''crypto.sessionsneedingbackup'',
        Text (JObj [(js ''bob/one'', JBool True), (js ''bob/two'', JBool True),
                    (js ''this%2Fthat/here%2Fthere'', JBool True)]))] (js ''bob'') (js ''two'')
       = None
   \<and> inbound_item [(js ''crypto.inboundgroupsessions/bob/one'',
        Text (JObj [(js ''session'', JStr (js ''s1''))])),
       (js ''crypto.inboundgroupsessions/this%2Fthat/here%2Fthere'',
        Text (JObj [(js ''session'', JStr (js ''s2''))])),
       (js ''crypto.sessionsneedingbackup'',
        Text (JObj [(js ''bob/one'', JBool True), (js ''bob/two'', JBool True),
                    (js ''this%2Fthat/here%2Fthere'', JBool True)]))]
        (js ''this/that'') (js ''here/there'')
       = Some (JSON_stringify (JObj [(js ''session'', JStr (js ''s2''))]))
   \<and> countSessionsNeedingBackup [(js ''crypto.inboundgroupsessions/bob/one'',
        Text (JObj [(js ''session'', JStr (js ''s1''))])),
       (js ''crypto.inboundgroupsessions/this%2Fthat/here%2Fthere'',
        Text (JObj [(js ''session'', JStr (js ''s2''))])),
       (js ''crypto.sessionsneedingbackup'',
        Text (JObj [(js ''bob/one'', JBool True), (js ''bob/two'', JBool True),
                    (js ''this%2Fthat/here%2Fthere'', JBool True)]))] = Inr 3
   \<and> getSessionsNeedingBackup [(js ''crypto.inboundgroupsessions/bob/one'',
        Text (JObj [(js ''session'', JStr (js ''s1''))])),
       (js ''crypto.inboundgroupsessions/this%2Fthat/here%2Fthere'',
        Text (JObj [(js ''session'', JStr (js ''s2''))])),
       (js ''crypto.sessionsneedingbackup'',
        Text (JObj [(js ''bob/one'', JBool True), (js ''bob/two'', JBool True),
                    (js ''this%2Fthat/here%2Fthere'', JBool True)]))] 0
       = Inr [\<lparr>senderKey = js ''bob'', sessionId = js ''one'',
                sessionData = JObj [(js ''session'', JStr (js ''s1''))]\<rparr>,
              \<lparr>senderKey = js ''this/that'', sessionId = js ''here/there'',
                sessionData = JObj [(js ''session'', JStr (js ''s2''))]\<rparr>]
   \<and> getSessionsNeedingBackup [(js ''crypto.inboundgroupsessions/bob/one'',
        Text (JObj [(js ''session'', JStr (js ''s1''))])),
       (js ''crypto.inboundgroupsessions/this%2Fthat/here%2Fthere'',
        Text (JObj [(js ''session'', JStr (js ''s2''))])),
       (js ''crypto.sessionsneedingbackup'',
        Text (JObj [(js ''bob/one'', JBool True), (js ''bob/two'', JBool True),
                    (js ''this%2Fthat/here%2Fthere'', JBool True)]))] 1
       = Inr [\<lparr>senderKey = js ''bob'', sessionId = js ''one'',
                sessionData = JObj [(js ''session'', JStr (js ''s1''))]\<rparr>]"
proof -
  let ?b = "[(js ''crypto.inboundgroupsessions/bob/one'',
        Text (JObj [(js ''session'', JStr (js ''s1''))])),
       (js ''crypto.inboundgroupsessions/this%2Fthat/here%2Fthere'',
        Text (JObj [(js ''session'', JStr (js ''s2''))])),
       (js ''crypto.sessionsneedingbackup'',
        Text (JObj [(js ''bob/one'', JBool True), (js ''bob/two'', JBool True),
                    (js ''this%2Fthat/here%2Fthere'', JBool True)]))]"
  let ?m = "[(js ''bob/one'', JBool True), (js ''bob/two'', JBool True),
        (js ''this%2Fthat/here%2Fthere'', JBool True)]"
  let ?marked = "[(js ''bob'', js ''one''), (js ''bob'', js ''two''),
            (js ''this/that'', js ''here/there'')]"
  have mark: "markSessionsNeedingBackup
      [(js ''crypto.inboundgroupsessions/bob/one'',
        Text (JObj [(js ''session'', JStr (js ''s1''))])),
       (js ''crypto.inboundgroupsessions/this%2Fthat/here%2Fthere'',
        Text (JObj [(js ''session'', JStr (js ''s2''))]))]
      [\<lparr>senderKey = js ''bob'', sessionId = js ''one'', sessionData = JNull\<rparr>,
       \<lparr>senderKey = js ''bob'', sessionId = js ''two'', sessionData = JNull\<rparr>,
       \<lparr>senderKey = js ''this/that'', sessionId = js ''here/there'', sessionData = JNull\<rparr>]
     = Inr ?b"
    by (simp add: string_eval store_eval markSessionsNeedingBackup_def)
  have a: "getItem ?b KEY_SESSIONS_NEEDING_BACKUP = Some (JSON_stringify (JObj ?m))"
    by (simp add: string_eval store_eval)
  have k: "map Inr (map fst ?m) = map (\<lambda>(sk, sid). mark_name sk sid) ?marked"
    by (simp add: string_eval)
  have d1: "inbound_item ?b (js ''bob'') (js ''one'')
       = Some (JSON_stringify (JObj [(js ''session'', JStr (js ''s1''))]))"
    by (simp add: string_eval store_eval)
  have d2: "inbound_item ?b (js ''bob'') (js ''two'') = None"
    by (simp add: string_eval store_eval)
  have d3: "inbound_item ?b (js ''this/that'') (js ''here/there'')
       = Some (JSON_stringify (JObj [(js ''session'', JStr (js ''s2''))]))"
    by (simp add: string_eval store_eval)
  have d: "\<forall>(sk, sid) \<in> set ?marked.
                   inbound_item ?b sk sid = None
                   \<or> (\<exists>data. inbound_item ?b sk sid = Some (JSON_stringify (JObj data)))"
    using d1 d2 d3 by auto
  have w: "sessions_with_data ?b ?marked
       = [\<lparr>senderKey = js ''bob'', sessionId = js ''one'',
            sessionData = JObj [(js ''session'', JStr (js ''s1''))]\<rparr>,
          \<lparr>senderKey = js ''this/that'', sessionId = js ''here/there'',
            sessionData = JObj [(js ''session'', JStr (js ''s2''))]\<rparr>]"
    using d1 d2 d3 by (simp add: sessions_with_data_def JSON_stringify_def)
  show ?thesis
    using mark a k d1 d2 d3 d w
      sessions_needing_backup [of ?b ?m ?marked 0, OF disjI2, OF a]
      sessions_needing_backup [of ?b ?m ?marked 1, OF disjI2, OF a]
    by simp
qed

end
